theory Spec2Isabelle
  imports Complex_Main "HOL-Library.AList"
begin

section \<open>The dynamic task graph (services/self-evolution-engine/evolution-agent.ts)\<close>

text \<open>
  The class \<^verbatim>\<open>DynamicTaskGraph\<close> is embedded as it is written. A JavaScript
  \<^verbatim>\<open>number\<close> is idealised as a real (no NaN, no infinities, no rounding); a
  \<^verbatim>\<open>Map\<close> that is iterated is an association list in insertion order
  (\<^verbatim>\<open>Map.set\<close> on a present key keeps the key's position), a \<^verbatim>\<open>Map\<close> that
  is only probed with \<^verbatim>\<open>has\<close> is a partial function. A promise is the number of
  the \<^verbatim>\<open>executeTask\<close> call that created it. The field \<^verbatim>\<open>id\<close> of a node is
  \<open>task_id\<close> here.
\<close>

record TaskNode =
  task_id :: string
  agent :: string
  dependencies :: "string list"
  priority :: real
  estimatedDuration :: real

type_synonym promise = nat

record DynamicTaskGraph =
  nodes :: "(string \<times> TaskNode) list"
  executionPool :: "string \<rightharpoonup> promise"
  maxConcurrency :: nat

text \<open>The field initialisers of the class: two empty maps and the limit 16.\<close>

definition new_DynamicTaskGraph :: DynamicTaskGraph where
  "new_DynamicTaskGraph = \<lparr>nodes = [], executionPool = Map.empty, maxConcurrency = 16\<rparr>"

text \<open>
  \<^verbatim>\<open>Array.from(this.nodes.values()).filter(node => node.dependencies.every(dep =>
  this.executionPool.has(dep))).sort((a, b) => b.priority - a.priority)\<close>.
  The sort of an array is stable; descending priority is ascending negated priority.
\<close>

definition getReadyTasks :: "DynamicTaskGraph \<Rightarrow> TaskNode list" where
  "getReadyTasks g =
     sort_key (\<lambda>node. - priority node)
       (filter (\<lambda>node. list_all (\<lambda>dep. executionPool g dep \<noteq> None) (dependencies node))
          (map snd (nodes g)))"

text \<open>
  \<^verbatim>\<open>calculateBayesianPriority\<close>. The helpers \<^verbatim>\<open>getHistoricalSuccessRate\<close> and
  \<^verbatim>\<open>getResourceAvailability\<close> are not defined anywhere in the repository; they are
  parameters here.
\<close>

definition calculateBayesianPriority :: "(string \<Rightarrow> real) \<Rightarrow> real \<Rightarrow> TaskNode \<Rightarrow> real" where
  "calculateBayesianPriority getHistoricalSuccessRate getResourceAvailability task =
     (let historicalSuccess = getHistoricalSuccessRate (agent task);
          urgency = priority task / 100;
          resourceAvailability = getResourceAvailability
      in (historicalSuccess * 0.4) + (urgency * 0.4) + (resourceAvailability * 0.2))"

subsection \<open>The run of \<^verbatim>\<open>executeAsync\<close>\<close>

text \<open>
  The state of one call of \<^verbatim>\<open>executeAsync\<close>: the object's fields, the two local
  arrays \<^verbatim>\<open>ready\<close> and \<^verbatim>\<open>executing\<close>, and three observations that the code
  does not keep: the counter that names promises, the list of \<^verbatim>\<open>executeTask\<close>
  calls in order (promise and task), and the promises known to have fulfilled.
\<close>

record exec_state =
  graph :: DynamicTaskGraph
  ready :: "TaskNode list"
  executing :: "promise list"
  next_promise :: promise
  dispatched :: "(promise \<times> TaskNode) list"
  fulfilled :: "promise list"

text \<open>
  \<^verbatim>\<open>executeTask\<close> is an async function: it returns a new promise at once. The
  priority it passes to the agent executor does not come back into the scheduler and is
  left out of the record of the call.
\<close>

definition executeTask :: "TaskNode \<Rightarrow> exec_state \<Rightarrow> promise \<times> exec_state" where
  "executeTask task s =
     (next_promise s,
      s\<lparr>next_promise := Suc (next_promise s),
        dispatched := dispatched s @ [(next_promise s, task)]\<rparr>)"

text \<open>
  The inner loop
  \<^verbatim>\<open>while (ready.length > 0 && executing.length < this.maxConcurrency)
  { task = ready.shift(); promise = this.executeTask(task); executing.push(promise);
    this.executionPool.set(task.id, promise) }\<close>,
  by recursion on the array \<^verbatim>\<open>ready\<close>; \<open>dispatch\<close> is the body of the loop.
\<close>

definition dispatch :: "TaskNode \<Rightarrow> exec_state \<Rightarrow> exec_state" where
  "dispatch task s =
     (case executeTask task s of
        (promise, s1) \<Rightarrow>
          s1\<lparr>executing := executing s1 @ [promise],
             graph := (graph s1)\<lparr>executionPool := (executionPool (graph s1))(task_id task \<mapsto> promise)\<rparr>\<rparr>)"

fun launch :: "TaskNode list \<Rightarrow> exec_state \<Rightarrow> exec_state" where
  "launch [] s = s\<lparr>ready := []\<rparr>"
| "launch (task # rest) s =
     (if length (executing s) < maxConcurrency (graph s) then launch rest (dispatch task s)
      else s\<lparr>ready := task # rest\<rparr>)"

text \<open>
  What \<^verbatim>\<open>await Promise.race(executing)\<close> delivers is decided outside the program:
  one event per await names the promise that settles the race and says whether it
  fulfilled or rejected. A run is given the events of its first awaits; when they are
  used up the run is still waiting at the next await (\<open>Awaiting\<close>).

  \<^item> On a rejection the await throws and \<^verbatim>\<open>executeAsync\<close> rejects (\<open>Failed\<close>).
  \<^item> On a fulfilment \<^verbatim>\<open>completed\<close> is the \<^emph>\<open>value\<close> the winning promise fulfilled
    with, not the promise. A fulfilment value is never one of the promise objects of
    \<^verbatim>\<open>executing\<close>, so \<^verbatim>\<open>executing.indexOf(completed)\<close> is \<open>-1\<close> and
    \<^verbatim>\<open>executing.splice(-1, 1)\<close> removes the last element of the array, whichever
    promise won. Then \<^verbatim>\<open>ready.push(...this.getReadyTasks())\<close>.
  \<^item> An event whose promise is not in \<^verbatim>\<open>executing\<close>, or a rejection of a promise
    that has fulfilled, describes no execution (\<open>BadSchedule\<close>).
\<close>

datatype race_event = Fulfils promise | Rejects promise

datatype run_result =
    Finished exec_state
  | Failed promise exec_state
  | Awaiting exec_state
  | BadSchedule

definition after_race :: "promise \<Rightarrow> exec_state \<Rightarrow> exec_state" where
  "after_race p s =
     s\<lparr>executing := butlast (executing s),
       ready := ready s @ getReadyTasks (graph s),
       fulfilled := fulfilled s @ [p]\<rparr>"

fun executeLoop :: "race_event list \<Rightarrow> exec_state \<Rightarrow> run_result" where
  "executeLoop [] s =
     (if ready s = [] \<and> executing s = [] then Finished s
      else Awaiting (launch (ready s) s))"
| "executeLoop (Fulfils p # sched) s =
     (if ready s = [] \<and> executing s = [] then Finished s
      else (let s1 = launch (ready s) s in
            if p \<in> set (executing s1) then executeLoop sched (after_race p s1)
            else BadSchedule))"
| "executeLoop (Rejects p # sched) s =
     (if ready s = [] \<and> executing s = [] then Finished s
      else (let s1 = launch (ready s) s in
            if p \<in> set (executing s1) \<and> p \<notin> set (fulfilled s1) then Failed p s1
            else BadSchedule))"

text \<open>
  \<^verbatim>\<open>executeAsync(workflow)\<close>: \<^verbatim>\<open>workflow.forEach(node => this.nodes.set(node.id,
  node))\<close>, \<^verbatim>\<open>ready = this.getReadyTasks()\<close>, \<^verbatim>\<open>executing = []\<close>, then the loop.
\<close>

definition buildGraph :: "DynamicTaskGraph \<Rightarrow> TaskNode list \<Rightarrow> DynamicTaskGraph" where
  "buildGraph g workflow =
     g\<lparr>nodes := foldl (\<lambda>m node. AList.update (task_id node) node m) (nodes g) workflow\<rparr>"

definition initial_state :: "DynamicTaskGraph \<Rightarrow> exec_state" where
  "initial_state g =
     \<lparr>graph = g, ready = getReadyTasks g, executing = [], next_promise = 0,
      dispatched = [], fulfilled = []\<rparr>"

definition executeAsync :: "DynamicTaskGraph \<Rightarrow> TaskNode list \<Rightarrow> race_event list \<Rightarrow> run_result" where
  "executeAsync g workflow sched = executeLoop sched (initial_state (buildGraph g workflow))"

text \<open>Observations on a state.\<close>

definition state_of :: "run_result \<Rightarrow> exec_state option" where
  "state_of r = (case r of Finished s \<Rightarrow> Some s | Failed p s \<Rightarrow> Some s
                 | Awaiting s \<Rightarrow> Some s | BadSchedule \<Rightarrow> None)"

definition dispatched_ids :: "exec_state \<Rightarrow> string list" where
  "dispatched_ids s = map (\<lambda>(p, task). task_id task) (dispatched s)"

text \<open>A task is running when a promise created for it has not fulfilled.\<close>

definition running :: "exec_state \<Rightarrow> (promise \<times> TaskNode) list" where
  "running s = filter (\<lambda>(p, task). p \<notin> set (fulfilled s)) (dispatched s)"

text \<open>A node id is completed when some promise created for it has fulfilled.\<close>

definition completed :: "exec_state \<Rightarrow> string \<Rightarrow> bool" where
  "completed s d = list_ex (\<lambda>(p, task). task_id task = d \<and> p \<in> set (fulfilled s)) (dispatched s)"

text \<open>A task with the given id and dependencies, for concrete inputs.\<close>

definition mk_task :: "string \<Rightarrow> string list \<Rightarrow> TaskNode" where
  "mk_task i deps =
     \<lparr>task_id = i, agent = ''agent'', dependencies = deps, priority = 50, estimatedDuration = 1\<rparr>"


subsection \<open>Workflows used as concrete inputs\<close>

definition single_workflow :: "TaskNode list" where
  "single_workflow = [mk_task ''A'' []]"

text \<open>\<open>B\<close> depends on \<open>A\<close>; \<open>C\<close> is independent.\<close>

definition chain_workflow :: "TaskNode list" where
  "chain_workflow = [mk_task ''A'' [], mk_task ''C'' [], mk_task ''B'' [''A'']]"

text \<open>Eighteen independent tasks \<open>TA\<close>, ..., \<open>TR\<close>.\<close>

definition wide_workflow :: "TaskNode list" where
  "wide_workflow = map (\<lambda>c. mk_task [CHR ''T'', c] []) ''ABCDEFGHIJKLMNOPQR''"

text \<open>The cycle of three nodes, and a cycle of two nodes beside an independent node.\<close>

definition cycle_workflow :: "TaskNode list" where
  "cycle_workflow = [mk_task ''A'' [''C''], mk_task ''B'' [''A''], mk_task ''C'' [''B'']]"

definition cycle_and_free_workflow :: "TaskNode list" where
  "cycle_and_free_workflow = [mk_task ''D'' [], mk_task ''A'' [''B''], mk_task ''B'' [''A'']]"

subsection \<open>The dependency relation\<close>

text \<open>
  The dependency relation of a graph on node ids, and the order in which a list of tasks
  can be started when every task needs its dependencies among the ids \<open>P\<close> started
  before it.
\<close>

definition dep_rel :: "DynamicTaskGraph \<Rightarrow> (string \<times> string) set" where
  "dep_rel g = {(task_id node, d) |node d. node \<in> snd ` set (nodes g) \<and> d \<in> set (dependencies node)}"

fun topo :: "string set \<Rightarrow> TaskNode list \<Rightarrow> bool" where
  "topo P [] = True"
| "topo P (t # ts) = (set (dependencies t) \<subseteq> P \<and> topo (insert (task_id t) P) ts)"

definition grows :: "DynamicTaskGraph \<Rightarrow> DynamicTaskGraph \<Rightarrow> bool" where
  "grows g g' \<longleftrightarrow> nodes g' = nodes g \<and> maxConcurrency g' = maxConcurrency g
     \<and> dom (executionPool g) \<subseteq> dom (executionPool g')"

text \<open>
  The invariant of the loop of \<^verbatim>\<open>executeAsync\<close>, for the tasks \<open>r\<close> still to be
  launched and the keys \<open>P0\<close> the pool had when the call began.
\<close>

definition pre :: "string set \<Rightarrow> TaskNode list \<Rightarrow> exec_state \<Rightarrow> bool" where
  "pre P0 r s \<longleftrightarrow>
     (\<forall>t \<in> set r. t \<in> set (getReadyTasks (graph s)))
   \<and> topo P0 (map snd (dispatched s))
   \<and> dom (executionPool (graph s)) = P0 \<union> task_id ` snd ` set (dispatched s)
   \<and> snd ` set (dispatched s) \<subseteq> snd ` set (nodes (graph s))
   \<and> length (executing s) \<le> maxConcurrency (graph s)"

definition Inv :: "string set \<Rightarrow> exec_state \<Rightarrow> bool" where
  "Inv P0 s = pre P0 (ready s) s"

definition wf_nodes :: "(string \<times> TaskNode) list \<Rightarrow> bool" where
  "wf_nodes m \<longleftrightarrow> distinct (map fst m) \<and> (\<forall>k node. (k, node) \<in> set m \<longrightarrow> k = task_id node)"

section \<open>The self-healing orchestrator (services/self-evolution-engine/evolution-agent.ts)\<close>

text \<open>
  The class \<^verbatim>\<open>SelfHealingOrchestrator\<close>. Values that the code only passes on or
  tests for truthiness (\<^verbatim>\<open>workflow\<close>, results, errors, checkpoints) are JavaScript
  values; numbers among them are integers here.
\<close>

datatype js_value = JUndefined | JNull | JBool bool | JNum int | JStr string | JObj string

fun truthy :: "js_value \<Rightarrow> bool" where
  "truthy JUndefined = False"
| "truthy JNull = False"
| "truthy (JBool b) = b"
| "truthy (JNum n) = (n \<noteq> 0)"
| "truthy (JStr s) = (s \<noteq> [])"
| "truthy (JObj x) = True"

text \<open>
  What an awaited call does: its promise fulfils with a value, rejects with an error, or
  never settles.
\<close>

datatype 'a outcome = Returned 'a | Threw js_value | Never

text \<open>
  The methods that the class calls and the repository does not define
  (\<^verbatim>\<open>executeWorkflow\<close>, \<^verbatim>\<open>executeFromCheckpoint\<close>, \<^verbatim>\<open>findAlternatePath\<close>,
  \<^verbatim>\<open>executeAlternatePath\<close>, \<^verbatim>\<open>executeWithDegradedFeatures\<close>, \<^verbatim>\<open>updateModel\<close>,
  \<^verbatim>\<open>createExecutionContext\<close>, \<^verbatim>\<open>applyPreventiveMeasures\<close>,
  \<^verbatim>\<open>executeWithMonitoring\<close>, \<^verbatim>\<open>extractFeatures\<close>, \<^verbatim>\<open>identifyFailurePoint\<close>,
  \<^verbatim>\<open>determineAction\<close>) and the TensorFlow model are parameters: every call is
  recorded in a history, and what a call does is a function of the history before it.
  For a call that the code awaits the outcome is how its promise settles; for the one
  call that it does not await, \<^verbatim>\<open>findAlternatePath\<close>, it is what the call itself does.
  \<^verbatim>\<open>sleep\<close> is the one of the enclosing file, a timer that always fires.
\<close>

datatype call =
    Sleep nat
  | ExecuteWorkflow js_value
  | ExecuteFromCheckpoint js_value js_value
  | FindAlternatePath js_value js_value
  | ExecuteAlternatePath js_value js_value
  | ExecuteWithDegradedFeatures js_value
  | UpdateModel bool "string option"
  | Predict
  | ApplyPreventiveMeasures
  | ExecuteWithMonitoring js_value

type_synonym history = "call list"

datatype action = Retry | Rollback | Reroute | Escalate

record FailurePrediction =
  probability :: real
  expectedFailurePoint :: string
  recommendedAction :: action

record execution_context =
  checkpoints :: "js_value list"
  currentStep :: js_value

record env =
  executeWorkflow_result :: "history \<Rightarrow> js_value outcome"
  executeFromCheckpoint_result :: "history \<Rightarrow> js_value outcome"
  findAlternatePath_result :: "history \<Rightarrow> js_value outcome"
  executeAlternatePath_result :: "history \<Rightarrow> js_value outcome"
  executeWithDegradedFeatures_result :: "history \<Rightarrow> js_value outcome"
  updateModel_result :: "history \<Rightarrow> js_value outcome"
  createExecutionContext :: "js_value \<Rightarrow> execution_context"
  predictor_result :: "history \<Rightarrow> real outcome"
  identifyFailurePoint :: "execution_context \<Rightarrow> real \<Rightarrow> string"
  determineAction :: "real \<Rightarrow> action"
  applyPreventiveMeasures_result :: "history \<Rightarrow> js_value outcome"
  executeWithMonitoring_result :: "history \<Rightarrow> js_value outcome"

text \<open>
  The lines the orchestrator writes with \<^verbatim>\<open>console.log\<close>, and one observation that is
  not a line of the console: how the awaited call of a strategy settled.
\<close>

datatype log_entry =
    Attempting string
  | Settled string "js_value outcome"
  | RecoverySuccessful string
  | FailedTryingNext string
  | HighFailureProbability
  | FailureDetected

record world =
  console :: "log_entry list"
  history :: history

text \<open>Sequencing of awaited calls, \<^verbatim>\<open>try\<close>/\<^verbatim>\<open>catch\<close>, and the console.\<close>

definition await :: "('w \<Rightarrow> 'a outcome \<times> 'w) \<Rightarrow> ('a \<Rightarrow> 'w \<Rightarrow> 'b outcome \<times> 'w) \<Rightarrow> 'w \<Rightarrow> 'b outcome \<times> 'w" where
  "await m k w =
     (case m w of
        (Returned x, w') \<Rightarrow> k x w'
      | (Threw e, w') \<Rightarrow> (Threw e, w')
      | (Never, w') \<Rightarrow> (Never, w'))"

definition try_catch :: "('w \<Rightarrow> 'a outcome \<times> 'w) \<Rightarrow> (js_value \<Rightarrow> 'w \<Rightarrow> 'a outcome \<times> 'w) \<Rightarrow> 'w \<Rightarrow> 'a outcome \<times> 'w" where
  "try_catch body handler w =
     (case body w of
        (Threw e, w') \<Rightarrow> handler e w'
      | r \<Rightarrow> r)"

definition console_log :: "log_entry \<Rightarrow> world \<Rightarrow> world" where
  "console_log entry w = w\<lparr>console := console w @ [entry]\<rparr>"

definition on_history :: "(history \<Rightarrow> 'a outcome \<times> history) \<Rightarrow> world \<Rightarrow> 'a outcome \<times> world" where
  "on_history f w = (case f (history w) of (r, h) \<Rightarrow> (r, w\<lparr>history := h\<rparr>))"

text \<open>The calls of the undefined methods.\<close>

definition sleep :: "nat \<Rightarrow> history \<Rightarrow> unit outcome \<times> history" where
  "sleep ms h = (Returned (), h @ [Sleep ms])"

definition executeWorkflow :: "env \<Rightarrow> js_value \<Rightarrow> history \<Rightarrow> js_value outcome \<times> history" where
  "executeWorkflow E workflow h = (executeWorkflow_result E h, h @ [ExecuteWorkflow workflow])"

definition executeFromCheckpoint :: "env \<Rightarrow> js_value \<Rightarrow> js_value \<Rightarrow> history \<Rightarrow> js_value outcome \<times> history" where
  "executeFromCheckpoint E workflow checkpoint h =
     (executeFromCheckpoint_result E h, h @ [ExecuteFromCheckpoint workflow checkpoint])"

definition findAlternatePath :: "env \<Rightarrow> js_value \<Rightarrow> js_value \<Rightarrow> history \<Rightarrow> js_value outcome \<times> history" where
  "findAlternatePath E workflow step h =
     (findAlternatePath_result E h, h @ [FindAlternatePath workflow step])"

definition executeAlternatePath :: "env \<Rightarrow> js_value \<Rightarrow> js_value \<Rightarrow> history \<Rightarrow> js_value outcome \<times> history" where
  "executeAlternatePath E workflow path h =
     (executeAlternatePath_result E h, h @ [ExecuteAlternatePath workflow path])"

definition executeWithDegradedFeatures :: "env \<Rightarrow> js_value \<Rightarrow> execution_context \<Rightarrow> history \<Rightarrow> js_value outcome \<times> history" where
  "executeWithDegradedFeatures E workflow context h =
     (executeWithDegradedFeatures_result E h, h @ [ExecuteWithDegradedFeatures workflow])"

definition updateModel :: "env \<Rightarrow> execution_context \<Rightarrow> bool \<Rightarrow> string option \<Rightarrow> history \<Rightarrow> js_value outcome \<times> history" where
  "updateModel E context success strategy h =
     (updateModel_result E h, h @ [UpdateModel success strategy])"

definition applyPreventiveMeasures :: "env \<Rightarrow> FailurePrediction \<Rightarrow> history \<Rightarrow> js_value outcome \<times> history" where
  "applyPreventiveMeasures E prediction h =
     (applyPreventiveMeasures_result E h, h @ [ApplyPreventiveMeasures])"

definition executeWithMonitoring :: "env \<Rightarrow> js_value \<Rightarrow> execution_context \<Rightarrow> history \<Rightarrow> js_value outcome \<times> history" where
  "executeWithMonitoring E workflow context h =
     (executeWithMonitoring_result E h, h @ [ExecuteWithMonitoring workflow])"

subsection \<open>The recovery strategies of \<^verbatim>\<open>registerRecoveryStrategies\<close>\<close>

type_synonym strategy =
  "js_value \<Rightarrow> execution_context \<Rightarrow> js_value \<Rightarrow> history \<Rightarrow> js_value outcome \<times> history"

definition maxRetries :: nat where
  "maxRetries = 5"

text \<open>
  \<^verbatim>\<open>for (let i = 0; i < maxRetries; i++) { await this.sleep(Math.pow(2, i) * 1000);
  try { return await this.executeWorkflow(workflow) } catch (e) { if (i === maxRetries - 1)
  throw e } }\<close>, from the value \<open>i\<close> of the loop variable on. A loop that ends
  without a \<^verbatim>\<open>return\<close> makes the function return \<^verbatim>\<open>undefined\<close>.
\<close>

function retry_from :: "env \<Rightarrow> js_value \<Rightarrow> nat \<Rightarrow> history \<Rightarrow> js_value outcome \<times> history" where
  "retry_from E workflow i h =
     (if i < maxRetries then
        await (sleep (2 ^ i * 1000))
          (\<lambda>_. try_catch (executeWorkflow E workflow)
                 (\<lambda>e h'. if i = maxRetries - 1 then (Threw e, h')
                         else retry_from E workflow (i + 1) h')) h
      else (Returned JUndefined, h))"
  by pat_completeness auto
termination
  by (relation "measure (\<lambda>(E, workflow, i, h). maxRetries - i)") auto

declare retry_from.simps [simp del]

definition exponential_backoff_retry :: "env \<Rightarrow> strategy" where
  "exponential_backoff_retry E workflow context error h = retry_from E workflow 0 h"

text \<open>
  \<^verbatim>\<open>context.checkpoints[context.checkpoints.length - 1]\<close> is \<^verbatim>\<open>undefined\<close> for an
  empty array.
\<close>

definition checkpoint_rollback :: "env \<Rightarrow> strategy" where
  "checkpoint_rollback E workflow context error h =
     (let lastCheckpoint = (if checkpoints context = [] then JUndefined else last (checkpoints context))
      in executeFromCheckpoint E workflow lastCheckpoint h)"

text \<open>
  \<^verbatim>\<open>const alternatePath = this.findAlternatePath(workflow, context.currentStep)\<close> is
  a plain call, not awaited: what it returns is handed to
  \<^verbatim>\<open>executeAlternatePath\<close> as it is. So the outcome of \<^verbatim>\<open>findAlternatePath\<close> is
  that of the call itself: it returns a value (for an async method the promise object,
  whose later rejection or silence the strategy does not see), it throws, which rejects
  the promise of the strategy, or it does not return. Only
  \<^verbatim>\<open>executeAlternatePath\<close> is awaited.
\<close>

definition alternate_path_routing :: "env \<Rightarrow> strategy" where
  "alternate_path_routing E workflow context error h =
     (case findAlternatePath E workflow (currentStep context) h of
        (Returned alternatePath, h1) \<Rightarrow> executeAlternatePath E workflow alternatePath h1
      | (Threw e, h1) \<Rightarrow> (Threw e, h1)
      | (Never, h1) \<Rightarrow> (Never, h1))"

definition graceful_degradation :: "env \<Rightarrow> strategy" where
  "graceful_degradation E workflow context error h =
     executeWithDegradedFeatures E workflow context h"

definition registerRecoveryStrategies :: "env \<Rightarrow> (string \<rightharpoonup> strategy)" where
  "registerRecoveryStrategies E =
     [''exponential_backoff_retry'' \<mapsto> exponential_backoff_retry E,
      ''checkpoint_rollback'' \<mapsto> checkpoint_rollback E,
      ''alternate_path_routing'' \<mapsto> alternate_path_routing E,
      ''graceful_degradation'' \<mapsto> graceful_degradation E]"

subsection \<open>\<^verbatim>\<open>autoRecover\<close>\<close>

text \<open>The array \<^verbatim>\<open>strategies\<close> of \<^verbatim>\<open>autoRecover\<close>: names and weights.\<close>

definition strategies :: "(string \<times> real) list" where
  "strategies =
     [(''exponential_backoff_retry'', 0.4),
      (''checkpoint_rollback'', 0.3),
      (''alternate_path_routing'', 0.2),
      (''graceful_degradation'', 0.1)]"

text \<open>
  \<^verbatim>\<open>await this.recoveryStrategies.get(strategy.name)?.(workflow, context, error)\<close>: a
  name that is not registered gives \<^verbatim>\<open>undefined\<close>.
\<close>

definition invoke :: "(string \<rightharpoonup> strategy) \<Rightarrow> string \<Rightarrow> js_value \<Rightarrow> execution_context \<Rightarrow> js_value \<Rightarrow> world \<Rightarrow> js_value outcome \<times> world" where
  "invoke registry name workflow context error w =
     (case (case registry name of
              None \<Rightarrow> (Returned JUndefined, w)
            | Some f \<Rightarrow> on_history (f workflow context error) w) of
        (r, w') \<Rightarrow> (r, console_log (Settled name r) w'))"

text \<open>
  The body of the \<^verbatim>\<open>for\<close> loop is one \<^verbatim>\<open>try\<close> block: the call of the strategy, and
  after a truthy result the line on the console, \<^verbatim>\<open>await this.updateModel(context, true,
  strategy.name)\<close> and the \<^verbatim>\<open>return\<close>. The \<^verbatim>\<open>catch\<close> block logs and goes on with
  the next strategy. \<open>None\<close> below stands for the end of the body without a
  \<^verbatim>\<open>return\<close>.
\<close>

definition attempt :: "env \<Rightarrow> (string \<rightharpoonup> strategy) \<Rightarrow> string \<Rightarrow> js_value \<Rightarrow> js_value \<Rightarrow> execution_context \<Rightarrow> world \<Rightarrow> js_value option outcome \<times> world" where
  "attempt E registry name error workflow context w =
     try_catch
       (await (invoke registry name workflow context error)
          (\<lambda>recovered w1.
             if truthy recovered then
               await (on_history (updateModel E context True (Some name)))
                 (\<lambda>_ w2. (Returned (Some recovered), w2))
                 (console_log (RecoverySuccessful name) w1)
             else (Returned None, w1)))
       (\<lambda>recoveryError w1. (Returned None, console_log (FailedTryingNext name) w1))
       (console_log (Attempting name) w)"

fun autoRecover_loop :: "env \<Rightarrow> (string \<rightharpoonup> strategy) \<Rightarrow> (string \<times> real) list \<Rightarrow> js_value \<Rightarrow> js_value \<Rightarrow> execution_context \<Rightarrow> world \<Rightarrow> js_value outcome \<times> world" where
  "autoRecover_loop E registry [] error workflow context w = (Returned JNull, w)"
| "autoRecover_loop E registry (strategy # rest) error workflow context w =
     (case attempt E registry (fst strategy) error workflow context w of
        (Returned (Some recovered), w') \<Rightarrow> (Returned recovered, w')
      | (Returned None, w') \<Rightarrow> autoRecover_loop E registry rest error workflow context w'
      | (Threw e, w') \<Rightarrow> (Threw e, w')
      | (Never, w') \<Rightarrow> (Never, w'))"

definition autoRecover :: "env \<Rightarrow> (string \<rightharpoonup> strategy) \<Rightarrow> js_value \<Rightarrow> js_value \<Rightarrow> execution_context \<Rightarrow> world \<Rightarrow> js_value outcome \<times> world" where
  "autoRecover E registry error workflow context w =
     autoRecover_loop E registry strategies error workflow context w"

subsection \<open>\<^verbatim>\<open>predictFailures\<close> and \<^verbatim>\<open>executeWithSelfHealing\<close>\<close>

text \<open>
  \<^verbatim>\<open>predictFailures\<close>: feature extraction, the call of the model and
  \<^verbatim>\<open>await prediction.data()\<close> are one call that yields the probability, throws or
  never answers.
\<close>

definition predictFailures :: "env \<Rightarrow> execution_context \<Rightarrow> history \<Rightarrow> FailurePrediction outcome \<times> history" where
  "predictFailures E context h =
     await (\<lambda>h. (predictor_result E h, h @ [Predict]))
       (\<lambda>p h'. (Returned \<lparr>probability = p,
                           expectedFailurePoint = identifyFailurePoint E context p,
                           recommendedAction = determineAction E p\<rparr>, h')) h"

definition try_block :: "env \<Rightarrow> js_value \<Rightarrow> execution_context \<Rightarrow> world \<Rightarrow> js_value outcome \<times> world" where
  "try_block E workflow executionContext w =
     await (on_history (predictFailures E executionContext))
       (\<lambda>prediction.
          await (\<lambda>w1. if probability prediction > 0.7 then
                        on_history (applyPreventiveMeasures E prediction)
                          (console_log HighFailureProbability w1)
                      else (Returned JUndefined, w1))
            (\<lambda>_. await (on_history (executeWithMonitoring E workflow executionContext))
                   (\<lambda>result. await (on_history (updateModel E executionContext True None))
                              (\<lambda>_ w4. (Returned result, w4))))) w"

definition catch_block :: "env \<Rightarrow> (string \<rightharpoonup> strategy) \<Rightarrow> js_value \<Rightarrow> execution_context \<Rightarrow> js_value \<Rightarrow> world \<Rightarrow> js_value outcome \<times> world" where
  "catch_block E registry workflow executionContext error w =
     await (autoRecover E registry error workflow executionContext)
       (\<lambda>recovered w'. if \<not> truthy recovered then (Threw error, w') else (Returned recovered, w'))
       (console_log FailureDetected w)"

definition executeWithSelfHealing :: "env \<Rightarrow> (string \<rightharpoonup> strategy) \<Rightarrow> js_value \<Rightarrow> world \<Rightarrow> js_value outcome \<times> world" where
  "executeWithSelfHealing E registry workflow w =
     (let executionContext = createExecutionContext E workflow
      in try_catch (try_block E workflow executionContext)
           (catch_block E registry workflow executionContext) w)"

text \<open>Observations on the lines of the console.\<close>

fun settled_in :: "log_entry list \<Rightarrow> (string \<times> js_value outcome) list" where
  "settled_in [] = []"
| "settled_in (Settled name r # es) = (name, r) # settled_in es"
| "settled_in (e # es) = settled_in es"

definition succeeded :: "js_value outcome \<Rightarrow> bool" where
  "succeeded r = (case r of Returned v \<Rightarrow> truthy v | Threw e \<Rightarrow> False | Never \<Rightarrow> False)"

definition failed :: "js_value outcome \<Rightarrow> bool" where
  "failed r = (case r of Returned v \<Rightarrow> \<not> truthy v | Threw e \<Rightarrow> True | Never \<Rightarrow> False)"

definition empty_world :: world where
  "empty_world = \<lparr>console = [], history = []\<rparr>"

text \<open>
  An environment for concrete runs: every undefined method that executes something
  throws, the model update returns, and the predictor answers probability 0.
\<close>

definition failing_env :: env where
  "failing_env =
     \<lparr>executeWorkflow_result = (\<lambda>h. Threw (JStr ''down'')),
      executeFromCheckpoint_result = (\<lambda>h. Threw (JStr ''down'')),
      findAlternatePath_result = (\<lambda>h. Threw (JStr ''down'')),
      executeAlternatePath_result = (\<lambda>h. Threw (JStr ''down'')),
      executeWithDegradedFeatures_result = (\<lambda>h. Threw (JStr ''down'')),
      updateModel_result = (\<lambda>h. Returned JUndefined),
      createExecutionContext = (\<lambda>workflow. \<lparr>checkpoints = [], currentStep = JUndefined\<rparr>),
      predictor_result = (\<lambda>h. Returned 0),
      identifyFailurePoint = (\<lambda>context p. ''unknown''),
      determineAction = (\<lambda>p. Retry),
      applyPreventiveMeasures_result = (\<lambda>h. Returned JUndefined),
      executeWithMonitoring_result = (\<lambda>h. Threw (JStr ''task failed''))\<rparr>"

text \<open>The model update returns normally, whatever the history of calls.\<close>

definition updates_return :: "env \<Rightarrow> bool" where
  "updates_return E \<longleftrightarrow> (\<forall>h. \<exists>v. updateModel_result E h = Returned v)"

text \<open>
  The calls of the retry strategy from attempt \<open>i\<close> on, for \<open>k\<close> attempts: before
  attempt \<open>j\<close> a sleep of \<open>2 ^ j * 1000\<close> milliseconds.
\<close>

definition backoff_calls :: "js_value \<Rightarrow> nat \<Rightarrow> nat \<Rightarrow> history" where
  "backoff_calls workflow i k =
     concat (map (\<lambda>j. [Sleep (2 ^ j * 1000), ExecuteWorkflow workflow]) [i..<i + k])"

text \<open>
  What the console says of a run of the loop of \<^verbatim>\<open>autoRecover\<close> over the strategies
  \<open>names\<close> with result \<open>res\<close>: \<open>atts\<close> are the strategies invoked, in order, with
  the way each settled.
\<close>

definition loop_post :: "env \<Rightarrow> string list \<Rightarrow> js_value outcome \<Rightarrow> (string \<times> js_value outcome) list \<Rightarrow> bool" where
  "loop_post E names res atts \<longleftrightarrow>
     map fst atts = take (length atts) names
   \<and> (\<forall>e. res \<noteq> Threw e)
   \<and> (updates_return E \<longrightarrow>
         (\<forall>a \<in> set (butlast atts). failed (snd a))
       \<and> (case res of
             Returned v \<Rightarrow> (atts \<noteq> [] \<and> snd (last atts) = Returned v \<and> truthy v)
                 \<or> (v = JNull \<and> map fst atts = names \<and> (\<forall>a \<in> set atts. failed (snd a)))
           | Threw e \<Rightarrow> False
           | Never \<Rightarrow> atts \<noteq> [] \<and> snd (last atts) = Never))"


definition update_failing_env :: env where
  "update_failing_env =
     failing_env\<lparr>executeWorkflow_result := (\<lambda>h. Returned (JObj ''retried'')),
                 executeFromCheckpoint_result := (\<lambda>h. Returned (JObj ''restored'')),
                 updateModel_result := (\<lambda>h. if h = [Sleep 1000, ExecuteWorkflow (JObj ''workflow'')]
                                            then Threw (JStr ''model update failed'')
                                            else Returned JUndefined)\<rparr>"

definition some_context :: execution_context where
  "some_context = \<lparr>checkpoints = [JObj ''checkpoint''], currentStep = JNum 1\<rparr>"


definition predictor_down_env :: env where
  "predictor_down_env =
     failing_env\<lparr>predictor_result := (\<lambda>h. Threw (JStr ''predictor unavailable'')),
                 executeWithMonitoring_result := (\<lambda>h. Returned (JObj ''done''))\<rparr>"

text \<open>Every registered strategy fails (throws or returns a falsy value) on every call.\<close>

definition all_fail :: "(string \<rightharpoonup> strategy) \<Rightarrow> bool" where
  "all_fail registry \<longleftrightarrow>
     (\<forall>name f workflow ctx error h. registry name = Some f \<longrightarrow> failed (fst (f workflow ctx error h)))"

section \<open>Properties of the task graph\<close>

subsection \<open>Readiness\<close>

lemma set_getReadyTasks:
  "set (getReadyTasks g) =
     {node \<in> snd ` set (nodes g). set (dependencies node) \<subseteq> dom (executionPool g)}"
  by (auto simp: getReadyTasks_def list_all_iff)

lemma grows_trans: "grows g g' \<Longrightarrow> grows g' g'' \<Longrightarrow> grows g g''"
  by (auto simp: grows_def)

lemma grows_ready: "grows g g' \<Longrightarrow> t \<in> set (getReadyTasks g) \<Longrightarrow> t \<in> set (getReadyTasks g')"
  by (auto simp: grows_def set_getReadyTasks)

lemma dispatch_simps:
  "graph (dispatch task s) = (graph s)\<lparr>executionPool := (executionPool (graph s))(task_id task \<mapsto> next_promise s)\<rparr>"
  "executing (dispatch task s) = executing s @ [next_promise s]"
  "dispatched (dispatch task s) = dispatched s @ [(next_promise s, task)]"
  "fulfilled (dispatch task s) = fulfilled s"
  "next_promise (dispatch task s) = Suc (next_promise s)"
  "ready (dispatch task s) = ready s"
  by (simp_all add: dispatch_def executeTask_def)

lemma dispatch_grows: "grows (graph s) (graph (dispatch task s))"
  by (auto simp: grows_def dispatch_simps)

lemma launch_grows: "grows (graph s) (graph (launch r s))"
proof (induction r arbitrary: s)
  case Nil
  then show ?case by (simp add: grows_def)
next
  case (Cons task rest)
  show ?case
  proof (cases "length (executing s) < maxConcurrency (graph s)")
    case True
    then show ?thesis
      using Cons[of "dispatch task s"] dispatch_grows[of s task] by (simp add: grows_trans)
  next
    case False
    then show ?thesis by (simp add: grows_def)
  qed
qed

lemma topo_append:
  "topo P (xs @ ys) = (topo P xs \<and> topo (P \<union> task_id ` set xs) ys)"
  by (induction xs arbitrary: P) (auto simp: Un_insert_left insert_commute)

lemma topo_deps: "topo P ts \<Longrightarrow> t \<in> set ts \<Longrightarrow> set (dependencies t) \<subseteq> P \<union> task_id ` set ts"
  by (induction ts arbitrary: P) fastforce+

lemma pre_dispatch:
  assumes "pre P0 (task # rest) s" and "length (executing s) < maxConcurrency (graph s)"
  shows "pre P0 rest (dispatch task s)"
proof -
  have t: "task \<in> set (getReadyTasks (graph s))"
    using assms(1) by (simp add: pre_def)
  then have deps: "set (dependencies task) \<subseteq> P0 \<union> task_id ` snd ` set (dispatched s)"
    and node: "task \<in> snd ` set (nodes (graph s))"
    using assms(1) by (auto simp: pre_def set_getReadyTasks)
  have "\<forall>t \<in> set rest. t \<in> set (getReadyTasks (graph (dispatch task s)))"
    using assms(1) grows_ready[OF dispatch_grows] by (simp add: pre_def)
  moreover have "topo P0 (map snd (dispatched (dispatch task s)))"
    using assms(1) deps by (simp add: pre_def dispatch_simps topo_append image_image)
  moreover have "dom (executionPool (graph (dispatch task s)))
      = P0 \<union> task_id ` snd ` set (dispatched (dispatch task s))"
    using assms(1) by (auto simp: pre_def dispatch_simps)
  moreover have "snd ` set (dispatched (dispatch task s)) \<subseteq> snd ` set (nodes (graph (dispatch task s)))"
    using assms(1) node by (auto simp: pre_def dispatch_simps)
  moreover have "length (executing (dispatch task s)) \<le> maxConcurrency (graph (dispatch task s))"
    using assms(2) by (simp add: dispatch_simps)
  ultimately show ?thesis by (simp add: pre_def)
qed

lemma pre_launch: "pre P0 r s \<Longrightarrow> Inv P0 (launch r s)"
proof (induction r arbitrary: s)
  case Nil
  then show ?case by (simp add: Inv_def pre_def)
next
  case (Cons task rest)
  show ?case
  proof (cases "length (executing s) < maxConcurrency (graph s)")
    case True
    then show ?thesis using Cons.IH[OF pre_dispatch[OF Cons.prems True]] by simp
  next
    case False
    then show ?thesis using Cons.prems by (simp add: Inv_def pre_def)
  qed
qed

lemma Inv_launch: "Inv P0 s \<Longrightarrow> Inv P0 (launch (ready s) s)"
  by (simp add: Inv_def pre_launch[unfolded Inv_def])

lemma Inv_after_race: "Inv P0 s \<Longrightarrow> Inv P0 (after_race p s)"
  by (auto simp: Inv_def pre_def after_race_def)

lemma Inv_initial: "Inv (dom (executionPool g)) (initial_state g)"
  by (simp add: Inv_def pre_def initial_state_def)

lemma Inv_executeLoop:
  "Inv P0 s \<Longrightarrow> state_of (executeLoop sched s) = Some s' \<Longrightarrow> Inv P0 s'"
proof (induction sched s rule: executeLoop.induct)
  case (1 s)
  then show ?case by (auto simp: state_of_def Inv_launch split: if_splits)
next
  case (2 p sched s)
  show ?case
  proof (cases "ready s = [] \<and> executing s = []")
    case True
    then show ?thesis using 2 by (simp add: state_of_def)
  next
    case False
    show ?thesis
    proof (cases "p \<in> set (executing (launch (ready s) s))")
      case True
      then show ?thesis
        using 2(1)[OF False refl True] 2(2,3) False Inv_after_race[OF Inv_launch]
        by (simp add: Let_def)
    next
      case no: False
      then show ?thesis using 2(3) False by (simp add: state_of_def Let_def)
    qed
  qed
next
  case (3 p sched s)
  then show ?case by (auto simp: state_of_def Let_def Inv_launch split: if_splits)
qed

lemma Inv_executeAsync:
  "state_of (executeAsync g workflow sched) = Some s \<Longrightarrow> Inv (dom (executionPool g)) s"
  using Inv_executeLoop[OF Inv_initial[of "buildGraph g workflow"], of sched s]
  by (simp add: executeAsync_def buildGraph_def)

text \<open>The array \<^verbatim>\<open>executing\<close> itself never grows beyond the limit.\<close>

lemma executing_bounded:
  "state_of (executeAsync g workflow sched) = Some s \<Longrightarrow>
     length (executing s) \<le> maxConcurrency (graph s)"
  using Inv_executeAsync[of g workflow sched s] by (simp add: Inv_def pre_def)

lemma Inv_dispatched_ready:
  assumes "Inv P0 s" and "pt \<in> set (dispatched s)"
  shows "snd pt \<in> set (getReadyTasks (graph s))"
proof -
  have "set (dependencies (snd pt)) \<subseteq> P0 \<union> task_id ` set (map snd (dispatched s))"
    using assms by (intro topo_deps) (auto simp: Inv_def pre_def)
  then show ?thesis
    using assms by (auto simp: Inv_def pre_def set_getReadyTasks)
qed

lemma ready_after_launch_race:
  assumes "Inv P0 s" and "ready s \<noteq> []"
  shows "ready (after_race p (launch (ready s) s)) \<noteq> []"
proof -
  from assms obtain t where "t \<in> set (getReadyTasks (graph s))"
    by (cases "ready s") (auto simp: Inv_def pre_def)
  then have "t \<in> set (getReadyTasks (graph (launch (ready s) s)))"
    using grows_ready[OF launch_grows] by blast
  then show ?thesis by (auto simp: after_race_def)
qed

lemma executeLoop_never_finishes:
  "Inv P0 s \<Longrightarrow> ready s \<noteq> [] \<Longrightarrow> executeLoop sched s \<noteq> Finished s'"
proof (induction sched s rule: executeLoop.induct)
  case (1 s)
  then show ?case by simp
next
  case (2 p sched s)
  show ?case
  proof (cases "p \<in> set (executing (launch (ready s) s))")
    case True
    have "executeLoop sched (after_race p (launch (ready s) s)) \<noteq> Finished s'"
      using 2(1)[OF _ refl True] 2(2,3) Inv_after_race[OF Inv_launch]
        ready_after_launch_race by simp
    then show ?thesis using 2(3) True by (simp add: Let_def)
  next
    case False
    then show ?thesis using 2(3) by (simp add: Let_def)
  qed
next
  case (3 p sched s)
  then show ?case by (simp add: Let_def)
qed

lemma executeLoop_idle: "ready s = [] \<Longrightarrow> executing s = [] \<Longrightarrow> executeLoop sched s = Finished s"
  by (induction sched s rule: executeLoop.induct) simp_all

lemma executeLoop_no_reject:
  "\<forall>p. Rejects p \<notin> set sched \<Longrightarrow> executeLoop sched s \<noteq> Failed q s'"
  by (induction sched s rule: executeLoop.induct) (auto simp: Let_def)

lemma executeAsync_finished_iff:
  "executeAsync g workflow sched = Finished s \<longleftrightarrow>
     getReadyTasks (buildGraph g workflow) = [] \<and> s = initial_state (buildGraph g workflow)"
proof (cases "getReadyTasks (buildGraph g workflow) = []")
  case True
  then show ?thesis
    using executeLoop_idle[of "initial_state (buildGraph g workflow)" sched]
    by (auto simp: executeAsync_def initial_state_def)
next
  case False
  then show ?thesis
    using executeLoop_never_finishes[OF Inv_initial[of "buildGraph g workflow"], of sched s]
    by (simp add: executeAsync_def initial_state_def)
qed

subsection \<open>Cycles\<close>

lemma set_update_subset: "set (AList.update k v m) \<subseteq> insert (k, v) (set m)"
proof (induction m)
  case Nil
  show ?case by simp
next
  case (Cons p m)
  show ?case
  proof (cases "fst p = k")
    case True
    then show ?thesis by auto
  next
    case False
    then show ?thesis using Cons by auto
  qed
qed

lemma wf_nodes_update:
  assumes "wf_nodes m" shows "wf_nodes (AList.update (task_id node) node m)"
proof -
  have "k = task_id n" if "(k, n) \<in> set (AList.update (task_id node) node m)" for k n
  proof -
    from that have "(k, n) = (task_id node, node) \<or> (k, n) \<in> set m"
      using set_update_subset[of "task_id node" node m] by blast
    then show ?thesis using assms by (auto simp: wf_nodes_def)
  qed
  moreover have "distinct (map fst (AList.update (task_id node) node m))"
    using assms by (simp add: wf_nodes_def AList.distinct_update)
  ultimately show ?thesis by (simp add: wf_nodes_def)
qed

lemma wf_nodes_foldl:
  "wf_nodes m \<Longrightarrow> wf_nodes (foldl (\<lambda>m node. AList.update (task_id node) node m) m workflow)"
  by (induction workflow arbitrary: m) (simp_all add: wf_nodes_update)


lemma wf_nodes_unique:
  assumes "wf_nodes m" and "n \<in> snd ` set m" and "n' \<in> snd ` set m" and "task_id n = task_id n'"
  shows "n = n'"
proof -
  from assms(2,3) obtain k k' where kn: "(k, n) \<in> set m" "(k', n') \<in> set m" by auto
  from assms(1) kn have "k = task_id n" "k' = task_id n'" by (simp_all add: wf_nodes_def)
  with assms(4) have "k = k'" by simp
  moreover have "distinct (map fst m)" using assms(1) by (simp add: wf_nodes_def)
  ultimately show ?thesis using kn eq_key_imp_eq_value[of m k n n'] by simp
qed


lemma dep_rel_iff:
  "(x, d) \<in> dep_rel g \<longleftrightarrow> (\<exists>n. n \<in> snd ` set (nodes g) \<and> task_id n = x \<and> d \<in> set (dependencies n))"
  unfolding dep_rel_def by (simp, blast)

lemma topo_closed_acyclic:
  assumes wf: "wf_nodes (nodes g)"
  shows "topo {} ts \<Longrightarrow> set ts \<subseteq> snd ` set (nodes g) \<Longrightarrow>
     dep_rel g `` (task_id ` set ts) \<subseteq> task_id ` set ts
     \<and> (\<forall>x \<in> task_id ` set ts. (x, x) \<notin> (dep_rel g)\<^sup>+)"
proof (induction ts rule: rev_induct)
  case Nil
  then show ?case by simp
next
  case (snoc t ts)
  let ?S = "task_id ` set ts"
  let ?R = "dep_rel g"
  have eq: "task_id ` set (ts @ [t]) = insert (task_id t) ?S" by simp
  from snoc.prems(1) have topo: "topo {} ts" and deps: "set (dependencies t) \<subseteq> ?S"
    by (simp_all add: topo_append)
  from snoc.prems(2) have sub: "set ts \<subseteq> snd ` set (nodes g)" and t: "t \<in> snd ` set (nodes g)"
    by simp_all
  from snoc.IH[OF topo sub] have closed: "?R `` ?S \<subseteq> ?S" and acyc: "\<forall>x \<in> ?S. (x, x) \<notin> ?R\<^sup>+"
    by (rule conjunct1, rule conjunct2)
  have succ: "d \<in> ?S" if "(task_id t, d) \<in> ?R" for d
  proof -
    from that have "\<exists>n. n \<in> snd ` set (nodes g) \<and> task_id n = task_id t \<and> d \<in> set (dependencies n)"
      by (simp only: dep_rel_iff)
    then obtain n where n: "n \<in> snd ` set (nodes g)" "task_id n = task_id t" "d \<in> set (dependencies n)"
      by blast
    have "n = t" by (rule wf_nodes_unique[OF wf n(1) t n(2)])
    then show ?thesis using n(3) deps by blast
  qed
  have closed': "?R `` insert (task_id t) ?S \<subseteq> insert (task_id t) ?S"
    using closed succ by blast
  have new: "(task_id t, task_id t) \<notin> ?R\<^sup>+" if new: "task_id t \<notin> ?S"
  proof
    assume "(task_id t, task_id t) \<in> ?R\<^sup>+"
    then have "\<exists>z. (task_id t, z) \<in> ?R \<and> (z, task_id t) \<in> ?R\<^sup>*"
      by (rule tranclD)
    then obtain z where z: "(task_id t, z) \<in> ?R" "(z, task_id t) \<in> ?R\<^sup>*"
      by (elim exE conjE)
    have "z \<in> ?S" by (rule succ[OF z(1)])
    then have "task_id t \<in> ?R\<^sup>* `` ?S" using z(2) by (rule ImageI[rotated])
    then have "task_id t \<in> ?S" unfolding Image_closed_trancl[OF closed] .
    then show False using new by simp
  qed
  have "\<forall>x \<in> insert (task_id t) ?S. (x, x) \<notin> ?R\<^sup>+"
    using acyc new by blast
  with closed' show ?case unfolding eq by (rule conjI)
qed

lemma grows_executeLoop:
  "state_of (executeLoop sched s) = Some s' \<Longrightarrow> grows (graph s) (graph s')"
proof (induction sched s rule: executeLoop.induct)
  case (1 s)
  then show ?case using launch_grows[of s "ready s"]
    by (auto simp: state_of_def grows_def split: if_splits)
next
  case (2 p sched s)
  show ?case
  proof (cases "ready s = [] \<and> executing s = []")
    case True
    then show ?thesis using 2(2) by (simp add: state_of_def grows_def)
  next
    case False
    show ?thesis
    proof (cases "p \<in> set (executing (launch (ready s) s))")
      case True
      then have "grows (graph (after_race p (launch (ready s) s))) (graph s')"
        using 2(1)[OF False refl True] 2(2) False by (simp add: Let_def)
      then have "grows (graph (launch (ready s) s)) (graph s')"
        by (simp add: after_race_def)
      then show ?thesis using launch_grows grows_trans by blast
    next
      case no: False
      then show ?thesis using 2(2) False by (simp add: state_of_def Let_def)
    qed
  qed
next
  case (3 p sched s)
  then show ?case using launch_grows[of s "ready s"]
    by (auto simp: state_of_def Let_def grows_def split: if_splits)
qed

lemma values_foldl_update:
  fixes m :: "(string \<times> TaskNode) list"
  shows "snd ` set (foldl (\<lambda>m node. AList.update (task_id node) node m) m workflow)
     \<subseteq> snd ` set m \<union> set workflow"
proof (induction workflow arbitrary: m)
  case Nil
  then show ?case by simp
next
  case (Cons node workflow)
  have "snd ` set (AList.update (task_id node) node m) \<subseteq> snd ` insert (task_id node, node) (set m)"
    by (rule image_mono) (rule set_update_subset)
  then have "snd ` set (AList.update (task_id node) node m) \<subseteq> insert node (snd ` set m)"
    by simp
  moreover have "snd ` set (foldl (\<lambda>m node. AList.update (task_id node) node m)
        (AList.update (task_id node) node m) workflow)
      \<subseteq> snd ` set (AList.update (task_id node) node m) \<union> set workflow"
    by (rule Cons)
  ultimately have "snd ` set (foldl (\<lambda>m node. AList.update (task_id node) node m)
        (AList.update (task_id node) node m) workflow)
      \<subseteq> snd ` set m \<union> insert node (set workflow)"
    by blast
  then show ?case by simp
qed

lemmas run_defs = executeAsync_def buildGraph_def initial_state_def new_DynamicTaskGraph_def
  mk_task_def getReadyTasks_def executeTask_def dispatch_def after_race_def


subsection \<open>A run that does not end\<close>

lemma single_run_forever:
  assumes "nodes (graph t) = [(''A'', mk_task ''A'' [])]" and "0 < maxConcurrency (graph t)"
    and "ready t = [mk_task ''A'' []]" and "executing t = []" and "next_promise t = k"
  shows "\<exists>s. executeLoop (map Fulfils [k..<k + n]) t = Awaiting s
     \<and> length (dispatched s) = length (dispatched t) + n + 1"
  using assms
proof (induction n arbitrary: t k)
  case 0
  then show ?case by (simp add: dispatch_simps)
next
  case (Suc n)
  let ?s1 = "launch (ready t) t"
  let ?t' = "after_race k ?s1"
  have s1: "executing ?s1 = [k]" "nodes (graph ?s1) = nodes (graph t)"
    "maxConcurrency (graph ?s1) = maxConcurrency (graph t)" "next_promise ?s1 = Suc k"
    "ready ?s1 = []" "length (dispatched ?s1) = length (dispatched t) + 1"
    using Suc.prems by (simp_all add: dispatch_simps)
  have ready': "ready ?t' = [mk_task ''A'' []]"
    using s1 Suc.prems(1) by (simp add: after_race_def getReadyTasks_def mk_task_def)
  have "\<exists>s. executeLoop (map Fulfils [Suc k..<Suc k + n]) ?t' = Awaiting s
     \<and> length (dispatched s) = length (dispatched ?t') + n + 1"
    using s1 Suc.prems ready' by (intro Suc.IH) (simp_all add: after_race_def)
  moreover have "executeLoop (map Fulfils [k..<k + Suc n]) t = executeLoop (map Fulfils [Suc k..<Suc k + n]) ?t'"
  proof -
    have "map Fulfils [k..<k + Suc n] = Fulfils k # map Fulfils [Suc k..<Suc k + n]"
      by (simp add: upt_conv_Cons)
    moreover have "executeLoop (Fulfils k # map Fulfils [Suc k..<Suc k + n]) t
        = executeLoop (map Fulfils [Suc k..<Suc k + n]) ?t'"
      using Suc.prems(3) s1(1) by (simp only: executeLoop.simps Let_def) simp
    ultimately show ?thesis by simp
  qed
  moreover have "length (dispatched ?t') = length (dispatched t) + 1"
    using s1(6) by (simp add: after_race_def)
  ultimately show ?case by simp
qed


subsection \<open>Claims about readiness and the run\<close>

text \<open>
  Claim C10. \<^verbatim>\<open>getReadyTasks\<close> does not look at whether a node has been dispatched or
  has finished: a node of the graph is in the result exactly when its dependency ids are
  all keys of the execution pool, in particular every node without dependencies is; in every state of every run
  each task already dispatched is still in the result; and a run dispatches the same
  task again (the one task \<open>A\<close> is started a second time as soon as its first promise
  has fulfilled).
\<close>

theorem getReadyTasks_keeps_dispatched:
  "(\<forall>node \<in> snd ` set (nodes g).
       (node \<in> set (getReadyTasks g)) = (set (dependencies node) \<subseteq> dom (executionPool g)))
   \<and> (\<forall>node \<in> snd ` set (nodes g). dependencies node = [] \<longrightarrow> node \<in> set (getReadyTasks g))
   \<and> (\<forall>s. state_of (executeAsync g0 workflow sched) = Some s \<longrightarrow>
          (\<forall>pt \<in> set (dispatched s). snd pt \<in> set (getReadyTasks (graph s))))
   \<and> (\<exists>s. executeAsync new_DynamicTaskGraph single_workflow [Fulfils 0] = Awaiting s
          \<and> dispatched_ids s = [''A'', ''A''])"
proof -
  have "\<exists>s. executeAsync new_DynamicTaskGraph single_workflow [Fulfils 0] = Awaiting s
          \<and> dispatched_ids s = [''A'', ''A'']"
    by (simp add: run_defs single_workflow_def dispatched_ids_def)
  moreover have "\<forall>s. state_of (executeAsync g0 workflow sched) = Some s \<longrightarrow>
          (\<forall>pt \<in> set (dispatched s). snd pt \<in> set (getReadyTasks (graph s)))"
    using Inv_dispatched_ready[OF Inv_executeAsync] by blast
  ultimately show ?thesis
    by (simp add: set_getReadyTasks)
qed

theorem getReadyTasks_keeps_dispatched_witness:
  "\<exists>s. executeAsync new_DynamicTaskGraph single_workflow [Fulfils 0, Fulfils 1] = Awaiting s
     \<and> dispatched_ids s = [''A'', ''A'', ''A'']
     \<and> mk_task ''A'' [] \<in> set (getReadyTasks (graph s))"
proof -
  have run: "\<exists>s. executeAsync new_DynamicTaskGraph single_workflow [Fulfils 0, Fulfils 1] = Awaiting s
     \<and> dispatched_ids s = [''A'', ''A'', ''A''] \<and> (2, mk_task ''A'' []) \<in> set (dispatched s)"
    by (simp add: run_defs single_workflow_def dispatched_ids_def)
  then obtain s where s: "executeAsync new_DynamicTaskGraph single_workflow [Fulfils 0, Fulfils 1] = Awaiting s"
    "dispatched_ids s = [''A'', ''A'', ''A'']" "(2, mk_task ''A'' []) \<in> set (dispatched s)"
    by blast
  have "state_of (executeAsync new_DynamicTaskGraph single_workflow [Fulfils 0, Fulfils 1]) = Some s"
    using s(1) by (simp add: state_of_def)
  then have "snd (2::nat, mk_task ''A'' []) \<in> set (getReadyTasks (graph s))"
    using getReadyTasks_keeps_dispatched[of new_DynamicTaskGraph new_DynamicTaskGraph single_workflow "[Fulfils 0, Fulfils 1]"] s(3)
    by blast
  then show ?thesis using s by auto
qed

text \<open>
  Claim C1 says that a node is in the result of \<^verbatim>\<open>getReadyTasks\<close> exactly when all
  its dependencies are completed. The code asks whether each dependency is a key of the
  execution pool, that is, whether it has been started. In the workflow where \<open>B\<close>
  depends on \<open>A\<close> and \<open>C\<close> is independent, \<open>A\<close> and \<open>C\<close> are started, \<open>C\<close> fulfils
  first, and \<open>B\<close> is ready and is started while no promise of \<open>A\<close> has fulfilled.
\<close>

theorem getReadyTasks_ready_before_completion:
  "\<exists>s. executeAsync new_DynamicTaskGraph chain_workflow [Fulfils 1] = Awaiting s
     \<and> mk_task ''B'' [''A''] \<in> set (getReadyTasks (graph s))
     \<and> dispatched_ids s = [''A'', ''C'', ''A'', ''C'', ''B'']
     \<and> fulfilled s = [1]
     \<and> \<not> completed s ''A''"
  by (simp add: run_defs chain_workflow_def dispatched_ids_def completed_def)

text \<open>
  Claim C2 says that no more than \<^verbatim>\<open>maxConcurrency\<close> tasks are running at a time. The
  array \<^verbatim>\<open>executing\<close> never grows beyond the limit, but the element removed after a
  race is the last one of the array and not the promise that settled. With eighteen
  independent tasks: sixteen are started, the first one fulfils, the promise of the
  sixteenth is dropped and a seventeenth task is started; the next race is settled at
  once by the promise of the first task, which is still in the array, the promise of the
  seventeenth is dropped and the eighteenth task is started. Seventeen different tasks are
  then running under the limit 16.
\<close>

theorem executeAsync_exceeds_maxConcurrency:
  "\<exists>s. executeAsync new_DynamicTaskGraph wide_workflow [Fulfils 0, Fulfils 0] = Awaiting s
     \<and> maxConcurrency (graph s) = 16
     \<and> length (executing s) = 16
     \<and> length (running s) = 17
     \<and> distinct (map (\<lambda>(p, task). task_id task) (running s))"
  by (simp add: run_defs wide_workflow_def running_def)

text \<open>
  Claim C3 says that the run of an acyclic workflow without failing tasks terminates
  with every node completed. In the code a task that has been started stays in the
  result of \<^verbatim>\<open>getReadyTasks\<close>, so \<^verbatim>\<open>ready\<close> is refilled after every race: when
  some node is ready at the start and no promise rejects, the run never leaves the loop;
  after any number of races it is waiting at the next one. For the workflow of the one
  task \<open>A\<close>, whose every execution succeeds, the run after \<open>n\<close> completions has
  started \<open>A\<close> for the \<open>n + 1\<close>-th time and is waiting.
\<close>

theorem executeAsync_never_terminates:
  "(getReadyTasks (buildGraph g workflow) \<noteq> [] \<and> (\<forall>p. Rejects p \<notin> set sched) \<longrightarrow>
      executeAsync g workflow sched = BadSchedule \<or> (\<exists>s. executeAsync g workflow sched = Awaiting s))
   \<and> (\<exists>s. executeAsync new_DynamicTaskGraph single_workflow (map Fulfils [0..<n]) = Awaiting s
          \<and> length (dispatched s) = Suc n)"
proof (intro conjI impI)
  assume a: "getReadyTasks (buildGraph g workflow) \<noteq> [] \<and> (\<forall>p. Rejects p \<notin> set sched)"
  show "executeAsync g workflow sched = BadSchedule \<or> (\<exists>s. executeAsync g workflow sched = Awaiting s)"
  proof (cases "executeAsync g workflow sched")
    case (Finished s)
    then show ?thesis using a by (simp add: executeAsync_finished_iff)
  next
    case (Failed q s)
    then show ?thesis using executeLoop_no_reject[of sched] a by (simp add: executeAsync_def)
  qed simp_all
next
  let ?t = "initial_state (buildGraph new_DynamicTaskGraph single_workflow)"
  have "\<exists>s. executeLoop (map Fulfils [0..<0 + n]) ?t = Awaiting s
     \<and> length (dispatched s) = length (dispatched ?t) + n + 1"
    by (rule single_run_forever) (simp_all add: run_defs single_workflow_def)
  then show "\<exists>s. executeAsync new_DynamicTaskGraph single_workflow (map Fulfils [0..<n]) = Awaiting s
          \<and> length (dispatched s) = Suc n"
    by (simp add: executeAsync_def initial_state_def)
qed

theorem executeAsync_never_terminates_witness:
  "getReadyTasks (buildGraph new_DynamicTaskGraph single_workflow) \<noteq> []
   \<and> (\<exists>s. executeAsync new_DynamicTaskGraph single_workflow [Fulfils 0, Fulfils 1, Fulfils 2] = Awaiting s)"
proof -
  have a: "getReadyTasks (buildGraph new_DynamicTaskGraph single_workflow) \<noteq> []"
    by (simp add: run_defs single_workflow_def)
  have b: "\<forall>p. Rejects p \<notin> set [Fulfils 0, Fulfils 1, Fulfils 2]" by simp
  have c: "executeAsync new_DynamicTaskGraph single_workflow [Fulfils 0, Fulfils 1, Fulfils 2] \<noteq> BadSchedule"
    by (simp add: run_defs single_workflow_def)
  have "executeAsync new_DynamicTaskGraph single_workflow [Fulfils 0, Fulfils 1, Fulfils 2] = BadSchedule
      \<or> (\<exists>s. executeAsync new_DynamicTaskGraph single_workflow [Fulfils 0, Fulfils 1, Fulfils 2] = Awaiting s)"
    using executeAsync_never_terminates[of new_DynamicTaskGraph single_workflow "[Fulfils 0, Fulfils 1, Fulfils 2]"] a b
    by blast
  then show ?thesis using a c by simp
qed

text \<open>
  Claim C6, as amended. \<^verbatim>\<open>executeAsync\<close> has no validation step and no cycle error:
  it stores the nodes and starts the loop. On a new graph object, in every state of
  every run, no task that has been dispatched lies on a cycle of the dependency relation
  (a task is started only after all its dependencies have been started); and when every
  node of the workflow has a dependency, as in the cycle of three nodes, the run returns
  at once, normally, with nothing dispatched.
\<close>

theorem executeAsync_no_cycle_validation:
  assumes "nodes g = []" and "executionPool g = Map.empty"
    and "state_of (executeAsync g workflow sched) = Some s"
  shows "(\<forall>pt \<in> set (dispatched s). (task_id (snd pt), task_id (snd pt)) \<notin> (dep_rel (graph s))\<^sup>+)
     \<and> ((\<forall>node \<in> set workflow. dependencies node \<noteq> []) \<longrightarrow>
           executeAsync g workflow sched = Finished s \<and> dispatched s = [])"
proof -
  let ?g1 = "buildGraph g workflow"
  have inv: "Inv {} s" using Inv_executeAsync[OF assms(3)] assms(2) by simp
  have "grows (graph (initial_state ?g1)) (graph s)"
    using grows_executeLoop assms(3) by (simp add: executeAsync_def)
  then have nodes_s: "nodes (graph s) = nodes ?g1"
    by (simp add: grows_def initial_state_def)
  have "wf_nodes (nodes ?g1)"
    using wf_nodes_foldl[of "nodes g" workflow] assms(1) by (simp add: buildGraph_def wf_nodes_def)
  then have wf: "wf_nodes (nodes (graph s))" using nodes_s by simp
  have t: "topo {} (map snd (dispatched s))"
    and sub: "set (map snd (dispatched s)) \<subseteq> snd ` set (nodes (graph s))"
    using inv by (simp_all add: Inv_def pre_def)
  have "\<forall>x \<in> task_id ` set (map snd (dispatched s)). (x, x) \<notin> (dep_rel (graph s))\<^sup>+"
    using topo_closed_acyclic[OF wf t sub] by (rule conjunct2)
  then have first: "\<forall>pt \<in> set (dispatched s). (task_id (snd pt), task_id (snd pt)) \<notin> (dep_rel (graph s))\<^sup>+"
    by simp
  have second: "executeAsync g workflow sched = Finished s \<and> dispatched s = []"
    if all: "\<forall>node \<in> set workflow. dependencies node \<noteq> []"
  proof -
    have "snd ` set (nodes ?g1) \<subseteq> set workflow"
      using values_foldl_update[of "nodes g" workflow] assms(1) by (simp add: buildGraph_def)
    moreover have "executionPool ?g1 = Map.empty" using assms(2) by (simp add: buildGraph_def)
    ultimately have "set (getReadyTasks ?g1) = {}"
      using all by (auto simp: set_getReadyTasks)
    then have empty: "getReadyTasks ?g1 = []" by simp
    then have "executeAsync g workflow sched = Finished (initial_state ?g1)"
      by (simp add: executeAsync_finished_iff)
    then show ?thesis using assms(3) by (auto simp: state_of_def initial_state_def)
  qed
  show ?thesis
  proof (intro conjI impI)
    show "\<forall>pt \<in> set (dispatched s). (task_id (snd pt), task_id (snd pt)) \<notin> (dep_rel (graph s))\<^sup>+"
      by (rule first)
  next
    assume "\<forall>node \<in> set workflow. dependencies node \<noteq> []"
    then show "executeAsync g workflow sched = Finished s" using second by blast
  next
    assume "\<forall>node \<in> set workflow. dependencies node \<noteq> []"
    then show "dispatched s = []" using second by blast
  qed
qed


theorem executeAsync_no_cycle_validation_witness:
  "\<exists>s. executeAsync new_DynamicTaskGraph cycle_and_free_workflow [Fulfils 0] = Awaiting s
     \<and> dispatched_ids s = [''D'', ''D'']
     \<and> (''D'', ''D'') \<notin> (dep_rel (graph s))\<^sup>+"
proof -
  have "\<exists>s. executeAsync new_DynamicTaskGraph cycle_and_free_workflow [Fulfils 0] = Awaiting s
     \<and> dispatched_ids s = [''D'', ''D''] \<and> (0, mk_task ''D'' []) \<in> set (dispatched s)"
    by (simp add: run_defs cycle_and_free_workflow_def dispatched_ids_def)
  then obtain s where s: "executeAsync new_DynamicTaskGraph cycle_and_free_workflow [Fulfils 0] = Awaiting s"
    "dispatched_ids s = [''D'', ''D'']" "(0, mk_task ''D'' []) \<in> set (dispatched s)"
    by blast
  have st: "state_of (executeAsync new_DynamicTaskGraph cycle_and_free_workflow [Fulfils 0]) = Some s"
    using s(1) by (simp add: state_of_def)
  have n: "nodes new_DynamicTaskGraph = []" and e: "executionPool new_DynamicTaskGraph = Map.empty"
    by (simp_all add: new_DynamicTaskGraph_def)
  have "\<forall>pt \<in> set (dispatched s). (task_id (snd pt), task_id (snd pt)) \<notin> (dep_rel (graph s))\<^sup>+"
    using executeAsync_no_cycle_validation[OF n e st] by (rule conjunct1)
  then have "(task_id (snd (0::nat, mk_task ''D'' [])), task_id (snd (0::nat, mk_task ''D'' []))) \<notin> (dep_rel (graph s))\<^sup>+"
    using s(3) by (rule bspec)
  then have "(''D'', ''D'') \<notin> (dep_rel (graph s))\<^sup>+"
    by (simp add: mk_task_def)
  then show ?thesis using s(1,2) by blast
qed

text \<open>
  Claim C6 as stated fails: the run of the cycle of three nodes ends normally, with no
  error, and in a workflow with the cycle \<open>A\<close>, \<open>B\<close> and the independent node \<open>D\<close>
  the node \<open>D\<close> is running.
\<close>

theorem executeAsync_cycle_counterexample:
  "executeAsync new_DynamicTaskGraph cycle_workflow []
     = Finished (initial_state (buildGraph new_DynamicTaskGraph cycle_workflow))
   \<and> (\<exists>s. executeAsync new_DynamicTaskGraph cycle_and_free_workflow [] = Awaiting s
          \<and> dispatched_ids s = [''D''] \<and> running s = [(0, mk_task ''D'' [])]
          \<and> (''A'', ''A'') \<in> (dep_rel (graph s))\<^sup>+)"
proof -
  have a: "executeAsync new_DynamicTaskGraph cycle_workflow []
     = Finished (initial_state (buildGraph new_DynamicTaskGraph cycle_workflow))"
    by (simp add: run_defs cycle_workflow_def)
  have "\<exists>s. executeAsync new_DynamicTaskGraph cycle_and_free_workflow [] = Awaiting s
          \<and> dispatched_ids s = [''D''] \<and> running s = [(0, mk_task ''D'' [])]
          \<and> nodes (graph s) = [(''D'', mk_task ''D'' []), (''A'', mk_task ''A'' [''B'']), (''B'', mk_task ''B'' [''A''])]"
    by (simp add: run_defs cycle_and_free_workflow_def dispatched_ids_def running_def)
  then obtain s where s: "executeAsync new_DynamicTaskGraph cycle_and_free_workflow [] = Awaiting s"
    "dispatched_ids s = [''D'']" "running s = [(0, mk_task ''D'' [])]"
    "nodes (graph s) = [(''D'', mk_task ''D'' []), (''A'', mk_task ''A'' [''B'']), (''B'', mk_task ''B'' [''A''])]"
    by blast
  have "(''A'', ''B'') \<in> dep_rel (graph s)"
    unfolding dep_rel_iff s(4) by (rule exI[of _ "mk_task ''A'' [''B'']"]) (simp add: mk_task_def)
  moreover have "(''B'', ''A'') \<in> dep_rel (graph s)"
    unfolding dep_rel_iff s(4) by (rule exI[of _ "mk_task ''B'' [''A'']"]) (simp add: mk_task_def)
  ultimately have "(''A'', ''A'') \<in> (dep_rel (graph s))\<^sup>+"
    by (rule trancl_into_trancl[OF r_into_trancl])
  then show ?thesis using a s(1,2,3) by blast
qed

section \<open>Properties of the orchestrator\<close>

subsection \<open>The retry strategy\<close>

lemma backoff_calls_0: "backoff_calls workflow i 0 = []"
  by (simp add: backoff_calls_def)

lemma backoff_calls_Suc:
  "backoff_calls workflow i (Suc k) = [Sleep (2 ^ i * 1000), ExecuteWorkflow workflow] @ backoff_calls workflow (Suc i) k"
  by (simp add: backoff_calls_def upt_rec[of i])

lemma retry_from_unfold:
  assumes "i < maxRetries"
  shows "retry_from E workflow i h =
     (case executeWorkflow_result E (h @ [Sleep (2 ^ i * 1000)]) of
        Returned v \<Rightarrow> (Returned v, h @ backoff_calls workflow i 1)
      | Never \<Rightarrow> (Never, h @ backoff_calls workflow i 1)
      | Threw e \<Rightarrow> if i = maxRetries - 1 then (Threw e, h @ backoff_calls workflow i 1)
                   else retry_from E workflow (Suc i) (h @ backoff_calls workflow i 1))"
  using assms
  by (subst retry_from.simps)
     (simp add: await_def try_catch_def sleep_def executeWorkflow_def backoff_calls_Suc backoff_calls_0
        split: outcome.splits)


lemma backoff_calls_1:
  "backoff_calls workflow i (Suc 0) = [Sleep (2 ^ i * 1000), ExecuteWorkflow workflow]"
  by (simp add: backoff_calls_def)

lemma backoff_calls_5:
  "backoff_calls workflow 0 5 =
     [Sleep 1000, ExecuteWorkflow workflow, Sleep 2000, ExecuteWorkflow workflow,
      Sleep 4000, ExecuteWorkflow workflow, Sleep 8000, ExecuteWorkflow workflow,
      Sleep 16000, ExecuteWorkflow workflow]"
  by (simp add: backoff_calls_def upt_rec)

lemma retry_from_all_fail:
  assumes "\<forall>h'. \<exists>e. executeWorkflow_result E h' = Threw e"
  shows "retry_from E workflow 0 h
     = (executeWorkflow_result E
          (h @ [Sleep 1000, ExecuteWorkflow workflow, Sleep 2000, ExecuteWorkflow workflow,
                Sleep 4000, ExecuteWorkflow workflow, Sleep 8000, ExecuteWorkflow workflow,
                Sleep 16000]),
        h @ backoff_calls workflow 0 5)"
proof -
  have step: "retry_from E workflow i h' =
      (if i = maxRetries - 1 then (executeWorkflow_result E (h' @ [Sleep (2 ^ i * 1000)]), h' @ backoff_calls workflow i 1)
       else retry_from E workflow (Suc i) (h' @ backoff_calls workflow i 1))"
    if "i < maxRetries" for i h'
  proof -
    from assms obtain e where "executeWorkflow_result E (h' @ [Sleep (2 ^ i * 1000)]) = Threw e"
      by blast
    then show ?thesis by (auto simp: retry_from_unfold[OF that])
  qed
  let ?h1 = "h @ [Sleep 1000, ExecuteWorkflow workflow]"
  let ?h2 = "?h1 @ [Sleep 2000, ExecuteWorkflow workflow]"
  let ?h3 = "?h2 @ [Sleep 4000, ExecuteWorkflow workflow]"
  let ?h4 = "?h3 @ [Sleep 8000, ExecuteWorkflow workflow]"
  have "retry_from E workflow 0 h = retry_from E workflow (Suc 0) ?h1"
    using step[of 0 h] by (simp add: maxRetries_def backoff_calls_1)
  also have "\<dots> = retry_from E workflow (Suc (Suc 0)) ?h2"
    using step[of "Suc 0" ?h1] by (simp add: maxRetries_def backoff_calls_1)
  also have "\<dots> = retry_from E workflow (Suc (Suc (Suc 0))) ?h3"
    using step[of "Suc (Suc 0)" ?h2] by (simp add: maxRetries_def backoff_calls_1)
  also have "\<dots> = retry_from E workflow (Suc (Suc (Suc (Suc 0)))) ?h4"
    using step[of "Suc (Suc (Suc 0))" ?h3] by (simp add: maxRetries_def backoff_calls_1)
  also have "\<dots> = (executeWorkflow_result E (?h4 @ [Sleep 16000]), ?h4 @ [Sleep 16000, ExecuteWorkflow workflow])"
    using step[of "Suc (Suc (Suc (Suc 0)))" ?h4] by (simp add: maxRetries_def backoff_calls_1)
  finally show ?thesis by (simp add: backoff_calls_5)
qed

subsection \<open>The loop of \<^verbatim>\<open>autoRecover\<close>\<close>

lemma settled_in_append: "settled_in (xs @ ys) = settled_in xs @ settled_in ys"
  by (induction xs rule: settled_in.induct) simp_all

lemma invoke_log:
  "\<exists>r w'. invoke registry name workflow context error w = (r, w')
      \<and> console w' = console w @ [Settled name r]"
  by (auto simp: invoke_def on_history_def console_log_def split: option.splits prod.splits)

lemma attempt_spec:
  "\<exists>r es w'. snd (attempt E registry name error workflow context w) = w'
      \<and> console w' = console w @ Attempting name # es \<and> settled_in es = [(name, r)]
      \<and> (case fst (attempt E registry name error workflow context w) of
            Returned (Some v) \<Rightarrow> r = Returned v \<and> truthy v
          | Returned None \<Rightarrow> failed r \<or> (succeeded r \<and> \<not> updates_return E)
          | Threw e \<Rightarrow> False
          | Never \<Rightarrow> r = Never \<or> (succeeded r \<and> \<not> updates_return E))"
proof -
  obtain r w1 where inv: "invoke registry name workflow context error (console_log (Attempting name) w) = (r, w1)"
    and lg: "console w1 = console w @ [Attempting name, Settled name r]"
    using invoke_log[of registry name workflow "context" error "console_log (Attempting name) w"]
    by (auto simp: console_log_def)
  show ?thesis
  proof (cases r)
    case Never
    then show ?thesis using inv lg
      by (intro exI[of _ r] exI[of _ "[Settled name r]"])
         (simp add: attempt_def try_catch_def await_def)
  next
    case (Threw e)
    then show ?thesis using inv lg
      by (intro exI[of _ r] exI[of _ "[Settled name r, FailedTryingNext name]"])
         (simp add: attempt_def try_catch_def await_def console_log_def failed_def)
  next
    case (Returned v)
    show ?thesis
    proof (cases "truthy v")
      case False
      then show ?thesis using inv lg Returned
        by (intro exI[of _ r] exI[of _ "[Settled name r]"])
           (simp add: attempt_def try_catch_def await_def failed_def)
    next
      case True
      let ?w2 = "console_log (RecoverySuccessful name) w1"
      show ?thesis
      proof (cases "updateModel_result E (history ?w2)")
        case u: (Returned x)
        then show ?thesis using inv lg Returned True
          by (intro exI[of _ r] exI[of _ "[Settled name r, RecoverySuccessful name]"])
             (simp add: attempt_def try_catch_def await_def console_log_def on_history_def updateModel_def)
      next
        case u: (Threw e)
        then have "\<not> updates_return E"
          unfolding updates_return_def by (metis outcome.distinct(1,3))
        then show ?thesis using inv lg Returned True u
          by (intro exI[of _ r] exI[of _ "[Settled name r, RecoverySuccessful name, FailedTryingNext name]"])
             (simp add: attempt_def try_catch_def await_def console_log_def on_history_def updateModel_def succeeded_def)
      next
        case u: Never
        then have "\<not> updates_return E"
          unfolding updates_return_def by (metis outcome.distinct(1,3))
        then show ?thesis using inv lg Returned True u
          by (intro exI[of _ r] exI[of _ "[Settled name r, RecoverySuccessful name]"])
             (simp add: attempt_def try_catch_def await_def console_log_def on_history_def updateModel_def succeeded_def)
      qed
    qed
  qed
qed


lemma loop_post_stop:
  assumes "res = Never \<and> (updates_return E \<longrightarrow> r = Never)
         \<or> (\<exists>v. res = Returned v \<and> r = Returned v \<and> truthy v)"
  shows "loop_post E (name # names) res [(name, r)]"
  using assms by (auto simp: loop_post_def)

lemma loop_post_step:
  assumes "loop_post E names res atts" and "updates_return E \<longrightarrow> failed r"
  shows "loop_post E (name # names) res ((name, r) # atts)"
proof -
  have "map fst ((name, r) # atts) = take (length ((name, r) # atts)) (name # names)"
    using assms(1) by (simp add: loop_post_def)
  moreover have "\<forall>e. res \<noteq> Threw e" using assms(1) by (simp add: loop_post_def)
  moreover have "\<forall>a \<in> set (butlast ((name, r) # atts)). failed (snd a)" if "updates_return E"
    using assms that by (auto simp: loop_post_def)
  moreover have "case res of
             Returned v \<Rightarrow> ((name, r) # atts \<noteq> [] \<and> snd (last ((name, r) # atts)) = Returned v \<and> truthy v)
                 \<or> (v = JNull \<and> map fst ((name, r) # atts) = name # names \<and> (\<forall>a \<in> set ((name, r) # atts). failed (snd a)))
           | Threw e \<Rightarrow> False
           | Never \<Rightarrow> (name, r) # atts \<noteq> [] \<and> snd (last ((name, r) # atts)) = Never" if "updates_return E"
    using assms that by (cases res) (auto simp: loop_post_def)
  ultimately show ?thesis unfolding loop_post_def by blast
qed

lemma autoRecover_loop_spec:
  "\<exists>es. console (snd (autoRecover_loop E registry L error workflow ctx w)) = console w @ es
      \<and> loop_post E (map fst L) (fst (autoRecover_loop E registry L error workflow ctx w)) (settled_in es)"
proof (induction L arbitrary: w)
  case Nil
  show ?case by (intro exI[of _ "[]"]) (simp add: loop_post_def)
next
  case (Cons strategy rest)
  let ?name = "fst strategy"
  let ?a = "attempt E registry ?name error workflow ctx w"
  from attempt_spec[of E registry ?name error workflow ctx w]
  obtain r es0 where es0: "console (snd ?a) = console w @ Attempting ?name # es0" "settled_in es0 = [(?name, r)]"
    and c: "case fst ?a of
            Returned (Some v) \<Rightarrow> r = Returned v \<and> truthy v
          | Returned None \<Rightarrow> failed r \<or> (succeeded r \<and> \<not> updates_return E)
          | Threw e \<Rightarrow> False
          | Never \<Rightarrow> r = Never \<or> (succeeded r \<and> \<not> updates_return E)"
    by blast
  define es1 where "es1 = Attempting ?name # es0"
  have es1: "console (snd ?a) = console w @ es1" "settled_in es1 = [(?name, r)]"
    using es0 by (simp_all add: es1_def)
  obtain ra wa where a: "?a = (ra, wa)" by (cases ?a)
  show ?case
  proof (cases ra)
    case Never
    then have "autoRecover_loop E registry (strategy # rest) error workflow ctx w = (Never, wa)"
      using a by simp
    moreover have "loop_post E (?name # map fst rest) Never [(?name, r)]"
      using c a Never by (intro loop_post_stop) auto
    ultimately show ?thesis using es1 a by (intro exI[of _ es1]) simp
  next
    case (Threw e)
    then show ?thesis using c a by simp
  next
    case (Returned x)
    show ?thesis
    proof (cases x)
      case (Some v)
      then have "autoRecover_loop E registry (strategy # rest) error workflow ctx w = (Returned v, wa)"
        using a Returned by simp
      moreover have "loop_post E (?name # map fst rest) (Returned v) [(?name, r)]"
        using c a Returned Some by (intro loop_post_stop) auto
      ultimately show ?thesis using es1 a by (intro exI[of _ es1]) simp
    next
      case None
      then have eq: "autoRecover_loop E registry (strategy # rest) error workflow ctx w
          = autoRecover_loop E registry rest error workflow ctx wa"
        using a Returned by simp
      from Cons[of wa] obtain es2 where es2:
        "console (snd (autoRecover_loop E registry rest error workflow ctx wa)) = console wa @ es2"
        "loop_post E (map fst rest) (fst (autoRecover_loop E registry rest error workflow ctx wa)) (settled_in es2)"
        by blast
      have "updates_return E \<longrightarrow> failed r" using c a Returned None by auto
      from loop_post_step[OF es2(2) this, of ?name]
      have "loop_post E (map fst (strategy # rest))
          (fst (autoRecover_loop E registry (strategy # rest) error workflow ctx w))
          (settled_in (es1 @ es2))"
        using eq es1(2) by (simp add: settled_in_append)
      moreover have "console (snd (autoRecover_loop E registry (strategy # rest) error workflow ctx w)) = console w @ es1 @ es2"
        using eq es2(1) es1(1) a by simp
      ultimately show ?thesis by blast
    qed
  qed
qed

subsection \<open>Order, exhaustion and concrete runs\<close>

lemma strategy_names:
  "map fst strategies = [''exponential_backoff_retry'', ''checkpoint_rollback'',
      ''alternate_path_routing'', ''graceful_degradation'']"
  by (simp add: strategies_def)

lemmas orch_defs = autoRecover_def strategies_def attempt_def invoke_def registerRecoveryStrategies_def
  exponential_backoff_retry_def checkpoint_rollback_def alternate_path_routing_def
  graceful_degradation_def await_def try_catch_def console_log_def on_history_def
  sleep_def executeWorkflow_def executeFromCheckpoint_def findAlternatePath_def
  executeAlternatePath_def executeWithDegradedFeatures_def updateModel_def
  maxRetries_def empty_world_def failing_env_def some_context_def


lemma invoke_failed:
  assumes "all_fail registry"
  shows "failed (fst (invoke registry name workflow ctx error w))"
proof (cases "registry name")
  case None
  then show ?thesis by (simp add: invoke_def failed_def)
next
  case (Some f)
  then have "failed (fst (f workflow ctx error (history w)))"
    using assms unfolding all_fail_def by blast
  then show ?thesis using Some
    by (cases "f workflow ctx error (history w)") (simp add: invoke_def on_history_def)
qed

lemma attempt_failed:
  assumes "all_fail registry"
  shows "\<exists>w' r. attempt E registry name error workflow ctx w = (Returned None, w')
     \<and> settled_in (drop (length (console w)) (console w')) = [(name, r)]"
proof -
  let ?w0 = "console_log (Attempting name) w"
  obtain r w1 where inv: "invoke registry name workflow ctx error ?w0 = (r, w1)"
    and lg: "console w1 = console w @ [Attempting name, Settled name r]"
    using invoke_log[of registry name workflow ctx error ?w0]
    by (auto simp: console_log_def)
  have f: "failed r" using invoke_failed[OF assms, of name workflow ctx error ?w0] inv by simp
  show ?thesis
  proof (cases r)
    case Never
    then show ?thesis using f by (simp add: failed_def)
  next
    case (Threw e)
    then show ?thesis using inv lg
      by (simp add: attempt_def try_catch_def await_def console_log_def)
  next
    case (Returned v)
    then have "\<not> truthy v" using f by (simp add: failed_def)
    then show ?thesis using inv lg Returned
      by (simp add: attempt_def try_catch_def await_def)
  qed
qed

lemma autoRecover_loop_exhausted:
  assumes "all_fail registry"
  shows "\<exists>w'. autoRecover_loop E registry L error workflow ctx w = (Returned JNull, w')
     \<and> map fst (settled_in (drop (length (console w)) (console w'))) = map fst L"
proof (induction L arbitrary: w)
  case Nil
  show ?case by simp
next
  case (Cons strategy rest)
  from attempt_failed[OF assms, of E "fst strategy" error workflow ctx w]
  obtain w1 r where w1: "attempt E registry (fst strategy) error workflow ctx w = (Returned None, w1)"
    "settled_in (drop (length (console w)) (console w1)) = [(fst strategy, r)]"
    by blast
  from Cons[of w1] obtain w2 where w2: "autoRecover_loop E registry rest error workflow ctx w1 = (Returned JNull, w2)"
    "map fst (settled_in (drop (length (console w1)) (console w2))) = map fst rest"
    by blast
  from attempt_spec[of E registry "fst strategy" error workflow ctx w] w1(1)
  obtain es1 where es1: "console w1 = console w @ es1" by auto
  from autoRecover_loop_spec[of E registry rest error workflow ctx w1] w2(1)
  obtain es2 where es2: "console w2 = console w1 @ es2" by auto
  have "settled_in (drop (length (console w)) (console w2)) = settled_in es1 @ settled_in es2"
    using es1 es2 by (simp add: settled_in_append)
  moreover have "settled_in es1 = [(fst strategy, r)]" using w1(2) es1 by simp
  moreover have "map fst (settled_in es2) = map fst rest" using w2(2) es2 by simp
  ultimately have "map fst (settled_in (drop (length (console w)) (console w2))) = map fst (strategy # rest)"
    by simp
  then show ?case using w1(1) w2(1) by simp
qed


lemma failing_registry:
  assumes "\<forall>h. \<exists>e. executeWorkflow_result E h = Threw e"
    and "\<forall>h. \<exists>e. executeFromCheckpoint_result E h = Threw e"
    and "\<forall>h. \<exists>e. findAlternatePath_result E h = Threw e"
    and "\<forall>h. \<exists>e. executeWithDegradedFeatures_result E h = Threw e"
  shows "all_fail (registerRecoveryStrategies E)"
proof -
  have 1: "failed (fst (exponential_backoff_retry E workflow ctx error h))" for workflow ctx error h
  proof -
    from assms(1) obtain e where "executeWorkflow_result E
          (h @ [Sleep 1000, ExecuteWorkflow workflow, Sleep 2000, ExecuteWorkflow workflow,
                Sleep 4000, ExecuteWorkflow workflow, Sleep 8000, ExecuteWorkflow workflow,
                Sleep 16000]) = Threw e" by blast
    then show ?thesis
      using retry_from_all_fail[OF assms(1), of workflow h]
      by (simp add: exponential_backoff_retry_def failed_def)
  qed
  have 2: "failed (fst (checkpoint_rollback E workflow ctx error h))" for workflow ctx error h
  proof -
    from assms(2) obtain e where "executeFromCheckpoint_result E h = Threw e" by blast
    then show ?thesis by (simp add: checkpoint_rollback_def executeFromCheckpoint_def failed_def Let_def)
  qed
  have 3: "failed (fst (alternate_path_routing E workflow ctx error h))" for workflow ctx error h
  proof -
    from assms(3) obtain e where "findAlternatePath_result E h = Threw e" by blast
    then show ?thesis by (simp add: alternate_path_routing_def findAlternatePath_def failed_def)
  qed
  have 4: "failed (fst (graceful_degradation E workflow ctx error h))" for workflow ctx error h
  proof -
    from assms(4) obtain e where "executeWithDegradedFeatures_result E h = Threw e" by blast
    then show ?thesis by (simp add: graceful_degradation_def executeWithDegradedFeatures_def failed_def)
  qed
  show ?thesis
    unfolding all_fail_def registerRecoveryStrategies_def
    using 1 2 3 4 by (auto split: if_splits)
qed

lemma failing_env_registry: "all_fail (registerRecoveryStrategies failing_env)"
  by (rule failing_registry) (simp_all add: failing_env_def)

lemma predictor_down_env_registry: "all_fail (registerRecoveryStrategies predictor_down_env)"
  by (rule failing_registry) (simp_all add: predictor_down_env_def failing_env_def)

section \<open>Claims about the priority score and the orchestrator\<close>

text \<open>
  Claim C8, as amended. The priority score is the weighted sum
  \<open>0.4 \<times> success rate + 0.4 \<times> priority / 100 + 0.2 \<times> resource availability\<close>. The
  code does not clamp it; it lies in the interval from 0 to 1 whenever the success rate
  and the availability lie in that interval and the priority lies between 0 and 100.
\<close>

theorem calculateBayesianPriority_weighted_sum:
  "calculateBayesianPriority hist avail task
      = 0.4 * hist (agent task) + 0.4 * (priority task / 100) + 0.2 * avail
   \<and> (0 \<le> hist (agent task) \<and> hist (agent task) \<le> 1 \<and> 0 \<le> priority task \<and> priority task \<le> 100
        \<and> 0 \<le> avail \<and> avail \<le> 1
      \<longrightarrow> 0 \<le> calculateBayesianPriority hist avail task \<and> calculateBayesianPriority hist avail task \<le> 1)"
  by (simp add: calculateBayesianPriority_def Let_def)

theorem calculateBayesianPriority_weighted_sum_witness:
  "calculateBayesianPriority (\<lambda>a. 1 / 2) (1 / 4) (mk_task ''A'' []) = 9 / 20
   \<and> 0 \<le> calculateBayesianPriority (\<lambda>a. 1 / 2) (1 / 4) (mk_task ''A'' [])
   \<and> calculateBayesianPriority (\<lambda>a. 1 / 2) (1 / 4) (mk_task ''A'' []) \<le> 1"
  using calculateBayesianPriority_weighted_sum[of "\<lambda>a. 1 / 2" "1 / 4" "mk_task ''A'' []"]
  by (simp add: mk_task_def)

text \<open>
  Claim C8 as stated fails: with priority 200, success rate 1 and availability 1 the
  score is 1.4.
\<close>

theorem calculateBayesianPriority_not_clamped:
  "calculateBayesianPriority (\<lambda>a. 1) 1 ((mk_task ''A'' [])\<lparr>priority := 200\<rparr>) = 7 / 5
   \<and> \<not> calculateBayesianPriority (\<lambda>a. 1) 1 ((mk_task ''A'' [])\<lparr>priority := 200\<rparr>) \<le> 1"
  by (simp add: calculateBayesianPriority_def Let_def mk_task_def)

text \<open>
  Claim C4 says that the strategies are tried in the fixed order and that, once a
  strategy has succeeded, its outcome is returned and no later strategy is invoked. In
  \<^verbatim>\<open>autoRecover\<close> the call \<^verbatim>\<open>await this.updateModel(context, true,
  strategy.name)\<close> stands between the line \<open>Recovery successful\<close> and
  \<^verbatim>\<open>return recovered\<close>, inside the \<^verbatim>\<open>try\<close> block: when it throws, the
  \<^verbatim>\<open>catch\<close> block takes the error for a failure of the strategy. In the run below
  the first attempt of \<open>exponential_backoff_retry\<close> returns the truthy value
  \<open>retried\<close> and the console says that the recovery was successful; the model update
  throws; the console says that the same strategy failed; \<open>checkpoint_rollback\<close> is
  invoked after the success, restarts from the checkpoint, and its result \<open>restored\<close>
  is what \<^verbatim>\<open>autoRecover\<close> returns.
\<close>

theorem autoRecover_continues_after_update_failure:
  "autoRecover update_failing_env (registerRecoveryStrategies update_failing_env)
      (JStr ''task failed'') (JObj ''workflow'') some_context empty_world
   = (Returned (JObj ''restored''),
      \<lparr>console = [Attempting ''exponential_backoff_retry'',
               Settled ''exponential_backoff_retry'' (Returned (JObj ''retried'')),
               RecoverySuccessful ''exponential_backoff_retry'',
               FailedTryingNext ''exponential_backoff_retry'',
               Attempting ''checkpoint_rollback'',
               Settled ''checkpoint_rollback'' (Returned (JObj ''restored'')),
               RecoverySuccessful ''checkpoint_rollback''],
        history = [Sleep 1000, ExecuteWorkflow (JObj ''workflow''),
              UpdateModel True (Some ''exponential_backoff_retry''),
              ExecuteFromCheckpoint (JObj ''workflow'') (JObj ''checkpoint''),
              UpdateModel True (Some ''checkpoint_rollback'')]\<rparr>)"
  by (simp add: orch_defs update_failing_env_def retry_from.simps)




text \<open>
  Claim C7. When every registered strategy fails (throws or returns a falsy value),
  \<^verbatim>\<open>autoRecover\<close> has invoked all four strategies and returns \<^verbatim>\<open>null\<close>; the
  \<^verbatim>\<open>catch\<close> block of its caller \<^verbatim>\<open>executeWithSelfHealing\<close> then throws the
  original error, so a failed execution ends with that error.
\<close>

theorem autoRecover_exhausted_is_terminal:
  assumes "all_fail registry"
  shows "fst (autoRecover E registry error workflow ctx w) = Returned JNull
     \<and> map fst (settled_in (drop (length (console w)) (console (snd (autoRecover E registry error workflow ctx w)))))
         = [''exponential_backoff_retry'', ''checkpoint_rollback'',
            ''alternate_path_routing'', ''graceful_degradation'']
     \<and> fst (catch_block E registry workflow ctx error w) = Threw error
     \<and> (try_block E workflow (createExecutionContext E workflow) w0 = (Threw error, w)
          \<longrightarrow> fst (executeWithSelfHealing E registry workflow w0) = Threw error)"
proof -
  from autoRecover_loop_exhausted[OF assms, of E strategies error workflow ctx w]
  have 1: "fst (autoRecover E registry error workflow ctx w) = Returned JNull"
    and 2: "map fst (settled_in (drop (length (console w)) (console (snd (autoRecover E registry error workflow ctx w)))))
         = [''exponential_backoff_retry'', ''checkpoint_rollback'',
            ''alternate_path_routing'', ''graceful_degradation'']"
    by (auto simp: autoRecover_def strategy_names)
  have 3: "fst (catch_block E registry workflow c error w') = Threw error" for c w'
  proof -
    from autoRecover_loop_exhausted[OF assms, of E strategies error workflow c "console_log FailureDetected w'"]
    obtain w2 where "autoRecover E registry error workflow c (console_log FailureDetected w') = (Returned JNull, w2)"
      by (auto simp: autoRecover_def)
    then show ?thesis by (simp add: catch_block_def await_def)
  qed
  have 4: "fst (executeWithSelfHealing E registry workflow w0) = Threw error"
    if "try_block E workflow (createExecutionContext E workflow) w0 = (Threw error, w)"
    using that 3 by (simp add: executeWithSelfHealing_def try_catch_def Let_def)
  from 1 2 3 4 show ?thesis by blast
qed

theorem autoRecover_exhausted_is_terminal_witness:
  "all_fail (registerRecoveryStrategies failing_env)
   \<and> try_block failing_env (JObj ''workflow'') (createExecutionContext failing_env (JObj ''workflow'')) empty_world
       = (Threw (JStr ''task failed''), \<lparr>console = [], history = [Predict, ExecuteWithMonitoring (JObj ''workflow'')]\<rparr>)
   \<and> fst (autoRecover failing_env (registerRecoveryStrategies failing_env) (JStr ''task failed'')
        (JObj ''workflow'') some_context \<lparr>console = [], history = [Predict, ExecuteWithMonitoring (JObj ''workflow'')]\<rparr>)
       = Returned JNull
   \<and> fst (executeWithSelfHealing failing_env (registerRecoveryStrategies failing_env) (JObj ''workflow'') empty_world)
       = Threw (JStr ''task failed'')"
proof -
  have t: "try_block failing_env (JObj ''workflow'') (createExecutionContext failing_env (JObj ''workflow'')) empty_world
       = (Threw (JStr ''task failed''), \<lparr>console = [], history = [Predict, ExecuteWithMonitoring (JObj ''workflow'')]\<rparr>)"
    by (simp add: try_block_def predictFailures_def executeWithMonitoring_def await_def on_history_def
        failing_env_def empty_world_def)
  from autoRecover_exhausted_is_terminal[OF failing_env_registry, of failing_env "JStr ''task failed''"
      "JObj ''workflow''" some_context "\<lparr>console = [], history = [Predict, ExecuteWithMonitoring (JObj ''workflow'')]\<rparr>" empty_world]
  show ?thesis using t failing_env_registry by simp
qed


text \<open>
  Claim C9, as amended. There is no time budget and no fallback for the predictor. When
  the predictor throws, \<^verbatim>\<open>executeWithSelfHealing\<close> goes to its \<^verbatim>\<open>catch\<close> block
  with the predictor's error, as for a failed execution: the recovery strategies run,
  and when they all fail the predictor's error is thrown. When the predictor never
  answers, \<^verbatim>\<open>executeWithSelfHealing\<close> never returns.
\<close>

theorem predictor_failure_is_execution_failure:
  "(predictor_result E (history w) = Threw e \<longrightarrow>
       executeWithSelfHealing E registry workflow w
         = catch_block E registry workflow (createExecutionContext E workflow) e
             (w\<lparr>history := history w @ [Predict]\<rparr>))
   \<and> (predictor_result E (history w) = Never \<longrightarrow>
       executeWithSelfHealing E registry workflow w = (Never, w\<lparr>history := history w @ [Predict]\<rparr>))
   \<and> (predictor_result E (history w) = Threw e \<and> all_fail registry \<longrightarrow>
       fst (executeWithSelfHealing E registry workflow w) = Threw e)"
proof (intro conjI impI)
  assume t: "predictor_result E (history w) = Threw e"
  then show "executeWithSelfHealing E registry workflow w
         = catch_block E registry workflow (createExecutionContext E workflow) e
             (w\<lparr>history := history w @ [Predict]\<rparr>)"
    by (simp add: executeWithSelfHealing_def try_block_def predictFailures_def try_catch_def
        await_def on_history_def Let_def)
next
  assume "predictor_result E (history w) = Never"
  then show "executeWithSelfHealing E registry workflow w = (Never, w\<lparr>history := history w @ [Predict]\<rparr>)"
    by (simp add: executeWithSelfHealing_def try_block_def predictFailures_def try_catch_def
        await_def on_history_def Let_def)
next
  assume a: "predictor_result E (history w) = Threw e \<and> all_fail registry"
  let ?w1 = "w\<lparr>history := history w @ [Predict]\<rparr>"
  let ?ctx = "createExecutionContext E workflow"
  have eq: "executeWithSelfHealing E registry workflow w = catch_block E registry workflow ?ctx e ?w1"
    using a
    by (simp add: executeWithSelfHealing_def try_block_def predictFailures_def try_catch_def
        await_def on_history_def Let_def)
  from autoRecover_loop_exhausted[of registry E strategies e workflow ?ctx "console_log FailureDetected ?w1"] a
  obtain w2 where w2: "autoRecover E registry e workflow ?ctx (console_log FailureDetected ?w1) = (Returned JNull, w2)"
    by (auto simp: autoRecover_def)
  then show "fst (executeWithSelfHealing E registry workflow w) = Threw e"
    using eq by (simp add: catch_block_def await_def)
qed

theorem predictor_failure_is_execution_failure_witness:
  "predictor_result predictor_down_env (history empty_world) = Threw (JStr ''predictor unavailable'')
   \<and> all_fail (registerRecoveryStrategies predictor_down_env)
   \<and> executeWithSelfHealing predictor_down_env (registerRecoveryStrategies predictor_down_env)
        (JObj ''workflow'') empty_world
       = catch_block predictor_down_env (registerRecoveryStrategies predictor_down_env) (JObj ''workflow'')
           (createExecutionContext predictor_down_env (JObj ''workflow'')) (JStr ''predictor unavailable'')
           (empty_world\<lparr>history := history empty_world @ [Predict]\<rparr>)
   \<and> fst (executeWithSelfHealing predictor_down_env (registerRecoveryStrategies predictor_down_env)
        (JObj ''workflow'') empty_world) = Threw (JStr ''predictor unavailable'')"
proof -
  have p: "predictor_result predictor_down_env (history empty_world) = Threw (JStr ''predictor unavailable'')"
    by (simp add: predictor_down_env_def)
  from predictor_failure_is_execution_failure[of predictor_down_env empty_world "JStr ''predictor unavailable''"
      "registerRecoveryStrategies predictor_down_env" "JObj ''workflow''"]
  show ?thesis using p predictor_down_env_registry by blast
qed

text \<open>
  Claim C9 as stated fails: with a predictor that throws, an execution that would have
  succeeded is never started and the call ends with the predictor's error; with
  probability 0 the same call returns the result of the execution.
\<close>

theorem predictor_failure_not_degraded:
  "fst (executeWithSelfHealing predictor_down_env (registerRecoveryStrategies predictor_down_env)
        (JObj ''workflow'') empty_world) = Threw (JStr ''predictor unavailable'')
   \<and> ExecuteWithMonitoring (JObj ''workflow'')
        \<notin> set (history (snd (executeWithSelfHealing predictor_down_env
              (registerRecoveryStrategies predictor_down_env) (JObj ''workflow'') empty_world)))
   \<and> executeWithSelfHealing (predictor_down_env\<lparr>predictor_result := (\<lambda>h. Returned 0)\<rparr>)
        (registerRecoveryStrategies (predictor_down_env\<lparr>predictor_result := (\<lambda>h. Returned 0)\<rparr>))
        (JObj ''workflow'') empty_world
       = (Returned (JObj ''done''),
          \<lparr>console = [], history = [Predict, ExecuteWithMonitoring (JObj ''workflow''), UpdateModel True None]\<rparr>)"
  by (simp add: executeWithSelfHealing_def try_block_def catch_block_def predictFailures_def
      executeWithMonitoring_def orch_defs predictor_down_env_def retry_from.simps Let_def)


end
